theory Spec2Isabelle
  imports Main "HOL-Library.Word"
begin

unbundle bit_operations_syntax

section \<open>Constants of t\_fs.h\<close>

type_synonym byte = "8 word"
type_synonym cluster_idx = "16 word"

abbreviation (input) CLUSTER_SIZE :: nat where "CLUSTER_SIZE \<equiv> 1024"
abbreviation (input) CLUSTER_COUNT :: cluster_idx where "CLUSTER_COUNT \<equiv> 4096"
abbreviation (input) BOOT_BLOCK_CLUSTER :: cluster_idx where "BOOT_BLOCK_CLUSTER \<equiv> 0"
abbreviation (input) FAT_CLUSTER_START :: cluster_idx where "FAT_CLUSTER_START \<equiv> 1"
abbreviation (input) FAT_CLUSTER_COUNT :: nat where "FAT_CLUSTER_COUNT \<equiv> 8"
abbreviation (input) ROOT_DIR_CLUSTER :: cluster_idx where "ROOT_DIR_CLUSTER \<equiv> 9"
abbreviation (input) DATA_CLUSTER_START :: cluster_idx where "DATA_CLUSTER_START \<equiv> 10"

abbreviation (input) FAT_ENTRY_FREE :: "16 word" where "FAT_ENTRY_FREE \<equiv> 0"
abbreviation (input) FAT_ENTRY_BOOT :: "16 word" where "FAT_ENTRY_BOOT \<equiv> 0xFFFD"
abbreviation (input) FAT_ENTRY_RESERVED :: "16 word" where "FAT_ENTRY_RESERVED \<equiv> 0xFFFE"
abbreviation (input) FAT_ENTRY_EOF :: "16 word" where "FAT_ENTRY_EOF \<equiv> 0xFFFF"

abbreviation (input) DIR_ENTRY_SIZE :: nat where "DIR_ENTRY_SIZE \<equiv> 32"
abbreviation (input) DIR_ENTRIES_PER_CLUSTER :: nat where "DIR_ENTRIES_PER_CLUSTER \<equiv> 32"
abbreviation (input) ATTR_ARCHIVE :: byte where "ATTR_ARCHIVE \<equiv> 0"
abbreviation (input) ATTR_DIRECTORY :: byte where "ATTR_DIRECTORY \<equiv> 1"

section \<open>Results of the operations\<close>

text \<open>
  Every operation of the C code returns 0 or -1; the diagnostic it prints tells the
  failures apart, and the model keeps that distinction in the error value.
  \<open>Undefined\<close> marks an access outside \<open>g_fat_table\<close> or outside a cluster buffer,
  where the C program has no defined behaviour.
\<close>

datatype error =
    NotFound | NotAFile | NotADirectory | InvalidPath | DirFull | NoSpace
  | DirNotEmpty | IOError | Undefined

section \<open>The in-memory FAT\<close>

text \<open>
  \<open>uint16_t g_fat_table[CLUSTER_COUNT]\<close>, indexed by a \<open>uint16_t\<close>. Only the indices
  below \<open>CLUSTER_COUNT\<close> belong to the array; every access of the model is guarded
  accordingly.
\<close>

type_synonym fat_table = "cluster_idx \<Rightarrow> 16 word"

subsection \<open>free\_cluster\_chain\<close>

function free_cluster_chain :: "fat_table \<Rightarrow> cluster_idx \<Rightarrow> error + fat_table" where
  "free_cluster_chain t current =
     (if current \<noteq> 0 \<and> current < FAT_ENTRY_EOF then
        (if \<not> current < CLUSTER_COUNT then Inl Undefined
         else free_cluster_chain (t(current := FAT_ENTRY_FREE)) (t current))
      else Inr t)"
  by pat_completeness auto
termination
proof (relation "measure (\<lambda>(t, current). 2 * card {i. t i \<noteq> 0} + (if current = 0 then 0 else 1))",
       goal_cases)
  case 1
  show ?case by simp
next
  case (2 t current)
  show ?case
  proof (cases "t current = 0")
    case True
    then have "{i. (t(current := 0)) i \<noteq> 0} = {i. t i \<noteq> 0}" by auto
    with True 2 show ?thesis by (simp del: fun_upd_apply)
  next
    case False
    then have "{i. (t(current := 0)) i \<noteq> 0} = {i. t i \<noteq> 0} - {current}" by auto
    moreover have "current \<in> {i. t i \<noteq> 0}" using False by simp
    moreover have "finite {i. t i \<noteq> 0}" by simp
    ultimately have "card {i. (t(current := 0)) i \<noteq> 0} < card {i. t i \<noteq> 0}"
      by (metis card_Diff1_less)
    with 2 show ?thesis by (simp del: fun_upd_apply)
  qed
qed

declare free_cluster_chain.simps [simp del]
subsection \<open>The chain of a head cluster\<close>

text \<open>
  \<open>on_chain t head c\<close>: following the FAT pointers from \<open>head\<close> reaches \<open>c\<close>
  through values that are neither Free (0) nor 0xFFFF. It describes the loop of
  \<open>free_cluster_chain\<close> independently of its recursion.
\<close>

inductive on_chain :: "fat_table \<Rightarrow> cluster_idx \<Rightarrow> cluster_idx \<Rightarrow> bool"
  for t :: fat_table and head :: cluster_idx where
  on_chain_head: "head \<noteq> 0 \<Longrightarrow> head < FAT_ENTRY_EOF \<Longrightarrow> on_chain t head head"
| on_chain_next: "on_chain t head c \<Longrightarrow> c < CLUSTER_COUNT \<Longrightarrow> t c \<noteq> 0 \<Longrightarrow> t c < FAT_ENTRY_EOF
                   \<Longrightarrow> on_chain t head (t c)"

code_pred on_chain .

text \<open>
  The loop as the specification words it: it stops when the current value is 0 or any
  sentinel, that is a value from 0xFFFD on.
\<close>

function spec_free_chain :: "fat_table \<Rightarrow> cluster_idx \<Rightarrow> error + fat_table" where
  "spec_free_chain t current =
     (if current = 0 \<or> FAT_ENTRY_BOOT \<le> current then Inr t
      else if \<not> current < CLUSTER_COUNT then Inl Undefined
      else spec_free_chain (t(current := FAT_ENTRY_FREE)) (t current))"
  by pat_completeness auto
termination
proof (relation "measure (\<lambda>(t, current). 2 * card {i. t i \<noteq> 0} + (if current = 0 then 0 else 1))",
       goal_cases)
  case 1
  show ?case by simp
next
  case (2 t current)
  show ?case
  proof (cases "t current = 0")
    case True
    then have "{i. (t(current := 0)) i \<noteq> 0} = {i. t i \<noteq> 0}" by auto
    with True 2 show ?thesis by (simp del: fun_upd_apply)
  next
    case False
    then have "{i. (t(current := 0)) i \<noteq> 0} = {i. t i \<noteq> 0} - {current}" by auto
    moreover have "current \<in> {i. t i \<noteq> 0}" using False by simp
    moreover have "finite {i. t i \<noteq> 0}" by simp
    ultimately have "card {i. (t(current := 0)) i \<noteq> 0} < card {i. t i \<noteq> 0}"
      by (metis card_Diff1_less)
    with 2 show ?thesis by (simp del: fun_upd_apply)
  qed
qed
declare spec_free_chain.simps [simp del]


definition fat_sentinel_example :: fat_table where
  "fat_sentinel_example = (\<lambda>_. 0)(10 := FAT_ENTRY_BOOT)"

definition fat_two_chain_example :: fat_table where
  "fat_two_chain_example = (\<lambda>_. 0)(10 := 11, 11 := FAT_ENTRY_EOF)"

section \<open>The partition and the file-system state\<close>

text \<open>
  A cluster buffer (\<open>uint8_t[CLUSTER_SIZE]\<close>, or \<open>union data_cluster\<close>) is given by its
  bytes at the offsets below \<open>CLUSTER_SIZE\<close>; the model never reads a buffer at another
  offset. The state is the global FAT mirror together with the clusters of the open
  partition file, which has its full size of \<open>CLUSTER_COUNT\<close> clusters; a transfer
  fails only on an index outside the partition.
\<close>

type_synonym cluster = "nat \<Rightarrow> byte"

record fs_state =
  fat :: fat_table
  disk :: "cluster_idx \<Rightarrow> cluster"

type_synonym status = "error + unit"

definition zero_cluster :: cluster where
  "zero_cluster = (\<lambda>_. 0)"

definition read_cluster :: "fs_state \<Rightarrow> cluster_idx \<Rightarrow> error + cluster" where
  "read_cluster s cluster_index =
     (if CLUSTER_COUNT \<le> cluster_index then Inl IOError else Inr (disk s cluster_index))"

definition write_cluster :: "cluster_idx \<Rightarrow> cluster \<Rightarrow> fs_state \<Rightarrow> error + fs_state" where
  "write_cluster cluster_index buffer s =
     (if CLUSTER_COUNT \<le> cluster_index then Inl IOError
      else Inr (s\<lparr>disk := (disk s)(cluster_index := buffer)\<rparr>))"

subsection \<open>Little-endian integers in a buffer\<close>

definition le16 :: "cluster \<Rightarrow> nat \<Rightarrow> 16 word" where
  "le16 buf off = ucast (buf off) OR push_bit 8 (ucast (buf (off + 1)))"

definition le32 :: "cluster \<Rightarrow> nat \<Rightarrow> 32 word" where
  "le32 buf off =
     ucast (buf off) OR push_bit 8 (ucast (buf (off + 1)))
       OR push_bit 16 (ucast (buf (off + 2))) OR push_bit 24 (ucast (buf (off + 3)))"

definition put_le16 :: "nat \<Rightarrow> 16 word \<Rightarrow> cluster \<Rightarrow> cluster" where
  "put_le16 off w buf = buf(off := ucast w, off + 1 := ucast (drop_bit 8 w))"

definition put_le32 :: "nat \<Rightarrow> 32 word \<Rightarrow> cluster \<Rightarrow> cluster" where
  "put_le32 off w buf =
     buf(off := ucast w, off + 1 := ucast (drop_bit 8 w),
         off + 2 := ucast (drop_bit 16 w), off + 3 := ucast (drop_bit 24 w))"

subsection \<open>The FAT region: fs\_load\_fat and the persist loop\<close>

text \<open>
  \<open>(uint8_t*)g_fat_table + i * CLUSTER_SIZE\<close>: the bytes of the entries
  \<open>512 * i ..< 512 * (i + 1)\<close>, low byte first.
\<close>

definition fat_as_bytes :: "fat_table \<Rightarrow> nat \<Rightarrow> cluster" where
  "fat_as_bytes t i =
     (\<lambda>j. let e = t (of_nat (512 * i + j div 2))
          in if even j then ucast e else ucast (drop_bit 8 e))"

fun persist_fat_from :: "nat \<Rightarrow> nat \<Rightarrow> fs_state \<Rightarrow> error + fs_state" where
  "persist_fat_from i 0 s = Inr s"
| "persist_fat_from i (Suc n) s =
     (case write_cluster (FAT_CLUSTER_START + of_nat i) (fat_as_bytes (fat s) i) s of
        Inl e \<Rightarrow> Inl e
      | Inr s' \<Rightarrow> persist_fat_from (Suc i) n s')"

definition persist_fat :: "fs_state \<Rightarrow> error + fs_state" where
  "persist_fat s = persist_fat_from 0 FAT_CLUSTER_COUNT s"

text \<open>The clusters of the partition once the whole of a table has been written to the FAT region.\<close>

definition with_fat_region :: "fat_table \<Rightarrow> (cluster_idx \<Rightarrow> cluster) \<Rightarrow> cluster_idx \<Rightarrow> cluster" where
  "with_fat_region t d =
     (\<lambda>c. if 1 \<le> c \<and> c \<le> 8 then fat_as_bytes t (unat c - 1) else d c)"

text \<open>Reading cluster \<open>FAT_CLUSTER_START + i\<close> into the mirror at byte offset \<open>i * CLUSTER_SIZE\<close>.\<close>

definition load_fat_cluster :: "nat \<Rightarrow> cluster \<Rightarrow> fat_table \<Rightarrow> fat_table" where
  "load_fat_cluster i buf t =
     (\<lambda>c. if 512 * i \<le> unat c \<and> unat c < 512 * (i + 1)
          then le16 buf (2 * (unat c - 512 * i)) else t c)"

fun load_fat_from :: "nat \<Rightarrow> nat \<Rightarrow> fs_state \<Rightarrow> error + fs_state" where
  "load_fat_from i 0 s = Inr s"
| "load_fat_from i (Suc n) s =
     (case read_cluster s (FAT_CLUSTER_START + of_nat i) of
        Inl e \<Rightarrow> Inl e
      | Inr buf \<Rightarrow> load_fat_from (Suc i) n (s\<lparr>fat := load_fat_cluster i buf (fat s)\<rparr>))"

definition fs_load_fat :: "fs_state \<Rightarrow> error + fs_state" where
  "fs_load_fat s = load_fat_from 0 FAT_CLUSTER_COUNT s"

subsection \<open>fs\_format\<close>

text \<open>
  The file is truncated and then extended to its full size, so every cluster that is
  not written reads as zeros. The FAT is written once at its first cluster and then
  cluster by cluster, as the code does.
\<close>

definition format_fat :: fat_table where
  "format_fat = (\<lambda>i. if i = BOOT_BLOCK_CLUSTER then FAT_ENTRY_BOOT
                     else if FAT_CLUSTER_START \<le> i \<and> i < FAT_CLUSTER_START + 8 then FAT_ENTRY_RESERVED
                     else if i = ROOT_DIR_CLUSTER then FAT_ENTRY_EOF
                     else FAT_ENTRY_FREE)"

definition fs_format :: "error + fs_state" where
  "fs_format =
     (let s0 = \<lparr>fat = format_fat, disk = (\<lambda>_. zero_cluster)\<rparr> in
      case write_cluster BOOT_BLOCK_CLUSTER (\<lambda>_. 0xBB) s0 of
        Inl e \<Rightarrow> Inl e
      | Inr s1 \<Rightarrow>
         (let s2 = (case write_cluster FAT_CLUSTER_START (fat_as_bytes (fat s1) 0) s1 of
                      Inl e \<Rightarrow> s1 | Inr s \<Rightarrow> s) in
          case persist_fat s2 of
            Inl e \<Rightarrow> Inl e
          | Inr s3 \<Rightarrow> write_cluster ROOT_DIR_CLUSTER zero_cluster s3))"


section \<open>C strings and paths\<close>

text \<open>
  A \<open>const char*\<close> argument is given by its bytes; the string ends before its first
  NUL byte.
\<close>

definition cstr :: "byte list \<Rightarrow> byte list" where
  "cstr xs = takeWhile (\<lambda>b. b \<noteq> 0) xs"

abbreviation (input) SLASH :: byte where "SLASH \<equiv> 0x2F"

text \<open>\<open>strncpy(dst, src, n)\<close> into a buffer of \<open>n\<close> bytes: truncated, padded with NUL.\<close>

definition strncpy :: "nat \<Rightarrow> byte list \<Rightarrow> byte list" where
  "strncpy n src = take n src @ replicate (n - length src) 0"

text \<open>The successive results of \<open>strtok(s, "/")\<close>, \<open>strtok(NULL, "/")\<close>, ... until NULL.\<close>

function strtok_all :: "byte list \<Rightarrow> byte list list" where
  "strtok_all s =
     (case dropWhile (\<lambda>b. b = SLASH) s of
        [] \<Rightarrow> []
      | c # cs \<Rightarrow> takeWhile (\<lambda>b. b \<noteq> SLASH) (c # cs)
                  # strtok_all (dropWhile (\<lambda>b. b \<noteq> SLASH) (c # cs)))"
  by pat_completeness auto
termination
proof (relation "measure length", goal_cases)
  case 1
  show ?case by simp
next
  case (2 s c cs)
  have "length (dropWhile (\<lambda>b. b \<noteq> SLASH) (c # cs)) \<le> length (c # cs)"
    by (rule length_dropWhile_le)
  moreover have "c \<noteq> SLASH"
    using 2 hd_dropWhile [of "\<lambda>b. b = SLASH" s] by auto
  then have "dropWhile (\<lambda>b. b \<noteq> SLASH) (c # cs) = dropWhile (\<lambda>b. b \<noteq> SLASH) cs" by simp
  moreover have "length (dropWhile (\<lambda>b. b \<noteq> SLASH) cs) \<le> length cs"
    by (rule length_dropWhile_le)
  moreover have "length (c # cs) \<le> length s"
    using 2 length_dropWhile_le [of "\<lambda>b. b = SLASH" s] by simp
  ultimately show ?case by simp
qed

declare strtok_all.simps [simp del]

section \<open>Directory clusters\<close>

record dir_entry =
  filename :: "byte list"
  attributes :: byte
  reserved :: "byte list"
  first_block :: "16 word"
  esize :: "32 word"

text \<open>
  \<open>cluster_buffer.dir[i]\<close>: the 32 bytes at offset \<open>32 * i\<close>, laid out as
  \<open>dir_entry_t\<close> (name 0..17, attribute 18, reserved 19..25, first block 26..27,
  size 28..31).
\<close>

definition dir_entry_at :: "cluster \<Rightarrow> nat \<Rightarrow> dir_entry" where
  "dir_entry_at buf i =
     \<lparr>filename = map buf [32 * i ..< 32 * i + 18],
      attributes = buf (32 * i + 18),
      reserved = map buf [32 * i + 19 ..< 32 * i + 26],
      first_block = le16 buf (32 * i + 26),
      esize = le32 buf (32 * i + 28)\<rparr>"

text \<open>
  \<open>strcmp((char*)entry->filename, token) == 0\<close>, read from the cluster buffer at offset
  \<open>off\<close>. The comparison runs until the first difference or the NUL byte, also past
  the 18 bytes of the name field into the bytes that follow it in the buffer; past the
  end of the buffer the read is undefined (\<open>None\<close>).
\<close>

fun strcmp_eq :: "cluster \<Rightarrow> nat \<Rightarrow> byte list \<Rightarrow> bool option" where
  "strcmp_eq buf off [] = (if off < CLUSTER_SIZE then Some (buf off = 0) else None)"
| "strcmp_eq buf off (c # cs) =
     (if off < CLUSTER_SIZE then
        (if buf off = c then (if c = 0 then Some True else strcmp_eq buf (Suc off) cs)
         else Some False)
      else None)"

text \<open>The scan of the 32 slots for a token, from slot \<open>i\<close> on: the first matching slot.\<close>

function find_token_slot :: "cluster \<Rightarrow> byte list \<Rightarrow> nat \<Rightarrow> error + nat option" where
  "find_token_slot buf token i =
     (if i < DIR_ENTRIES_PER_CLUSTER then
        (if buf (32 * i) \<noteq> 0 then
           (case strcmp_eq buf (32 * i) token of
              None \<Rightarrow> Inl Undefined
            | Some True \<Rightarrow> Inr (Some i)
            | Some False \<Rightarrow> find_token_slot buf token (i + 1))
         else find_token_slot buf token (i + 1))
      else Inr None)"
  by pat_completeness auto
termination
  by (relation "measure (\<lambda>(buf, token, i). DIR_ENTRIES_PER_CLUSTER - i)") auto

declare find_token_slot.simps [simp del]

section \<open>find\_entry\_by\_path\<close>

record path_search_result =
  name :: "byte list"
  found :: bool
  parent_cluster :: cluster_idx
  entry_cluster :: cluster_idx
  entry_index :: nat
  entry :: dir_entry

text \<open>\<open>memset(result, 0, sizeof(path_search_result_t))\<close>\<close>

definition zero_entry :: dir_entry where
  "zero_entry = \<lparr>filename = replicate 18 0, attributes = 0, reserved = replicate 7 0,
                 first_block = 0, esize = 0\<rparr>"

definition zero_result :: path_search_result where
  "zero_result = \<lparr>name = replicate 18 0, found = False, parent_cluster = 0, entry_cluster = 0,
                  entry_index = 0, entry = zero_entry\<rparr>"

text \<open>
  The \<open>while (token != NULL)\<close> loop over the remaining tokens. Its state is the local
  \<open>current_cluster\<close> and the result built so far; it returns both as they are when the
  loop is left, or the error of the return -1.
\<close>

fun walk :: "fs_state \<Rightarrow> byte list list \<Rightarrow> cluster_idx \<Rightarrow> path_search_result
               \<Rightarrow> error + path_search_result \<times> cluster_idx" where
  "walk s [] current_cluster result = Inr (result\<lparr>found := True\<rparr>, current_cluster)"
| "walk s (token # rest) current_cluster result =
     (let result1 = result\<lparr>name := strncpy 17 token @ [0]\<rparr> in
      case read_cluster s current_cluster of
        Inl e \<Rightarrow> Inl IOError
      | Inr cluster_buffer \<Rightarrow>
         (case find_token_slot cluster_buffer token 0 of
            Inl e \<Rightarrow> Inl e
          | Inr None \<Rightarrow> Inr (result1\<lparr>found := False\<rparr>, current_cluster)
          | Inr (Some i) \<Rightarrow>
              (let e = dir_entry_at cluster_buffer i in
               walk s rest (first_block e)
                 (result1\<lparr>parent_cluster := current_cluster, entry_cluster := first_block e,
                          entry_index := i, entry := e\<rparr>))))"

declare walk.simps [simp del]

definition find_entry_by_path :: "byte list \<Rightarrow> fs_state \<Rightarrow> error + path_search_result" where
  "find_entry_by_path path s =
     (let result = zero_result\<lparr>parent_cluster := ROOT_DIR_CLUSTER\<rparr>;
          path_copy = take 511 (cstr path)
      in if path_copy = [SLASH] then
           Inr (result\<lparr>found := True, entry_cluster := ROOT_DIR_CLUSTER,
                        entry := (entry result)\<lparr>attributes := ATTR_DIRECTORY,
                                                filename := SLASH # replicate 17 0\<rparr>\<rparr>)
         else
           (case strtok_all path_copy of
              [] \<Rightarrow> Inr result
            | token # rest \<Rightarrow>
                (case walk s (token # rest) ROOT_DIR_CLUSTER result of
                   Inl e \<Rightarrow> Inl e
                 | Inr (result', current_cluster) \<Rightarrow> Inr result')))"


section \<open>The allocator\<close>

function find_free_cluster_from :: "fat_table \<Rightarrow> cluster_idx \<Rightarrow> cluster_idx" where
  "find_free_cluster_from t i =
     (if i < CLUSTER_COUNT then
        (if t i = FAT_ENTRY_FREE then i else find_free_cluster_from t (i + 1))
      else 0)"
  by pat_completeness auto
termination
proof (relation "measure (\<lambda>(t, i). 4096 - unat i)", goal_cases)
  case 1
  show ?case by simp
next
  case (2 t i)
  then have "unat i < 4096" by (simp add: word_less_nat_alt)
  then have "unat (i + 1) = unat i + 1" by (simp add: unat_word_ariths)
  with \<open>unat i < 4096\<close> show ?case by simp
qed

declare find_free_cluster_from.simps [simp del]

definition find_free_cluster :: "fat_table \<Rightarrow> cluster_idx" where
  "find_free_cluster t = find_free_cluster_from t DATA_CLUSTER_START"

function find_free_slot :: "cluster \<Rightarrow> nat \<Rightarrow> nat option" where
  "find_free_slot buf i =
     (if i < DIR_ENTRIES_PER_CLUSTER then
        (if buf (32 * i) = 0 then Some i else find_free_slot buf (i + 1))
      else None)"
  by pat_completeness auto
termination
  by (relation "measure (\<lambda>(buf, i). DIR_ENTRIES_PER_CLUSTER - i)") auto

declare find_free_slot.simps [simp del]

text \<open>
  \<open>find_free_dir_entry\<close> returns -1 when the cluster cannot be read (\<open>IOError\<close>), -2 when
  the directory is full (\<open>DirFull\<close>), and otherwise the slot, with the cluster read.
\<close>

definition find_free_dir_entry :: "fs_state \<Rightarrow> cluster_idx \<Rightarrow> error + nat \<times> cluster" where
  "find_free_dir_entry s dir_cluster_index =
     (case read_cluster s dir_cluster_index of
        Inl e \<Rightarrow> Inl IOError
      | Inr dir_cluster \<Rightarrow>
         (case find_free_slot dir_cluster 0 of
            None \<Rightarrow> Inl DirFull
          | Some i \<Rightarrow> Inr (i, dir_cluster)))"

section \<open>fs\_mkdir and fs\_create\<close>

text \<open>\<open>strrchr(s, c)\<close>: the offset of the last occurrence.\<close>

fun strrchr :: "byte list \<Rightarrow> byte \<Rightarrow> nat option" where
  "strrchr [] c = None"
| "strrchr (x # xs) c =
     (case strrchr xs c of
        Some k \<Rightarrow> Some (Suc k)
      | None \<Rightarrow> if x = c then Some 0 else None)"

text \<open>
  The stores to a new entry: \<open>strncpy(filename, name, 17)\<close>, \<open>filename[17] = 0\<close>, the
  attribute, the first block and the size 0. The reserved bytes keep what the slot held.
\<close>

definition set_new_entry :: "nat \<Rightarrow> byte list \<Rightarrow> byte \<Rightarrow> cluster_idx \<Rightarrow> cluster \<Rightarrow> cluster" where
  "set_new_entry i new_name attr new_cluster_idx buf =
     put_le32 (32 * i + 28) 0
       (put_le16 (32 * i + 26) new_cluster_idx
          ((\<lambda>j. if 32 * i \<le> j \<and> j < 32 * i + 17 then strncpy 17 new_name ! (j - 32 * i)
                else if j = 32 * i + 17 then 0
                else buf j)
           (32 * i + 18 := attr)))"

text \<open>
  The split of the path at its last slash. A path of 511 bytes or more leaves
  \<open>path_copy\<close> without its NUL byte (\<open>Undefined\<close>).
\<close>

definition split_parent :: "byte list \<Rightarrow> error + byte list \<times> byte list" where
  "split_parent path =
     (if 511 \<le> length (cstr path) then Inl Undefined
      else case strrchr (cstr path) SLASH of
             None \<Rightarrow> Inl InvalidPath
           | Some k \<Rightarrow>
               Inr (if k = 0 then [SLASH] else take k (cstr path), drop (Suc k) (cstr path)))"

definition fs_mkdir :: "byte list \<Rightarrow> fs_state \<Rightarrow> status \<times> fs_state" where
  "fs_mkdir path s =
     (case split_parent path of
        Inl e \<Rightarrow> (Inl e, s)
      | Inr (parent_path, new_dir_name) \<Rightarrow>
         (case find_entry_by_path parent_path s of
            Inl e \<Rightarrow> (Inl NotFound, s)
          | Inr parent_info \<Rightarrow>
             if \<not> found parent_info then (Inl NotFound, s)
             else if attributes (entry parent_info) \<noteq> ATTR_DIRECTORY then (Inl NotADirectory, s)
             else
               (case find_free_dir_entry s (entry_cluster parent_info) of
                  Inl e \<Rightarrow> (Inl DirFull, s)
                | Inr (free_entry_index, parent_cluster_data) \<Rightarrow>
                   (let new_cluster_idx = find_free_cluster (fat s) in
                    if new_cluster_idx = 0 then (Inl NoSpace, s)
                    else
                      (let buf = set_new_entry free_entry_index new_dir_name ATTR_DIRECTORY
                                   new_cluster_idx parent_cluster_data;
                           s1 = s\<lparr>fat := (fat s)(new_cluster_idx := FAT_ENTRY_EOF)\<rparr>
                       in case write_cluster (entry_cluster parent_info) buf s1 of
                            Inl e \<Rightarrow> (Inl IOError, s1)
                          | Inr s2 \<Rightarrow>
                             (case write_cluster new_cluster_idx zero_cluster s2 of
                                Inl e \<Rightarrow> (Inl IOError, s2)
                              | Inr s3 \<Rightarrow>
                                 (case persist_fat s3 of
                                    Inl e \<Rightarrow> (Inl IOError, s3)
                                  | Inr s4 \<Rightarrow> (Inr (), s4))))))))"

definition fs_create :: "byte list \<Rightarrow> fs_state \<Rightarrow> status \<times> fs_state" where
  "fs_create path s =
     (case split_parent path of
        Inl e \<Rightarrow> (Inl e, s)
      | Inr (parent_path, new_file_name) \<Rightarrow>
         (case find_entry_by_path parent_path s of
            Inl e \<Rightarrow> (Inl NotFound, s)
          | Inr parent_info \<Rightarrow>
             if \<not> found parent_info then (Inl NotFound, s)
             else if attributes (entry parent_info) \<noteq> ATTR_DIRECTORY then (Inl NotADirectory, s)
             else
               (case find_free_dir_entry s (entry_cluster parent_info) of
                  Inl e \<Rightarrow> (Inl DirFull, s)
                | Inr (free_entry_index, parent_cluster_data) \<Rightarrow>
                   (let new_cluster_idx = find_free_cluster (fat s) in
                    if new_cluster_idx = 0 then (Inl NoSpace, s)
                    else
                      (let buf = set_new_entry free_entry_index new_file_name ATTR_ARCHIVE
                                   new_cluster_idx parent_cluster_data;
                           s1 = s\<lparr>fat := (fat s)(new_cluster_idx := FAT_ENTRY_EOF)\<rparr>
                       in case write_cluster (entry_cluster parent_info) buf s1 of
                            Inl e \<Rightarrow> (Inl IOError, s1)
                          | Inr s2 \<Rightarrow>
                             (case persist_fat s2 of
                                Inl e \<Rightarrow> (Inl IOError, s2)
                              | Inr s3 \<Rightarrow> (Inr (), s3)))))))"

section \<open>fs\_unlink\<close>

text \<open>The scan of \<open>fs_unlink\<close> for an occupied slot.\<close>

definition dir_is_empty :: "cluster \<Rightarrow> bool" where
  "dir_is_empty buf = list_all (\<lambda>i. buf (32 * i) = 0) [0 ..< DIR_ENTRIES_PER_CLUSTER]"

text \<open>\<open>memset(&dir[i], 0, sizeof(dir_entry_t))\<close>\<close>

definition clear_entry :: "nat \<Rightarrow> cluster \<Rightarrow> cluster" where
  "clear_entry i buf = (\<lambda>j. if 32 * i \<le> j \<and> j < 32 * i + 32 then 0 else buf j)"

definition unlink_entry :: "path_search_result \<Rightarrow> fs_state \<Rightarrow> status \<times> fs_state" where
  "unlink_entry result s =
     (case free_cluster_chain (fat s) (first_block (entry result)) of
        Inl e \<Rightarrow> (Inl e, s)
      | Inr t \<Rightarrow>
         (let s1 = s\<lparr>fat := t\<rparr> in
          case read_cluster s1 (parent_cluster result) of
            Inl e \<Rightarrow> (Inl IOError, s1)
          | Inr parent_dir_content \<Rightarrow>
             (case write_cluster (parent_cluster result)
                     (clear_entry (entry_index result) parent_dir_content) s1 of
                Inl e \<Rightarrow> (Inl IOError, s1)
              | Inr s2 \<Rightarrow>
                 (case persist_fat s2 of
                    Inl e \<Rightarrow> (Inl IOError, s2)
                  | Inr s3 \<Rightarrow> (Inr (), s3)))))"

definition fs_unlink :: "byte list \<Rightarrow> fs_state \<Rightarrow> status \<times> fs_state" where
  "fs_unlink path s =
     (case find_entry_by_path path s of
        Inl e \<Rightarrow> (Inl NotFound, s)
      | Inr result \<Rightarrow>
         if \<not> found result then (Inl NotFound, s)
         else if attributes (entry result) = ATTR_DIRECTORY then
           (case read_cluster s (entry_cluster result) of
              Inl e \<Rightarrow> (Inl IOError, s)
            | Inr dir_content \<Rightarrow>
               if \<not> dir_is_empty dir_content then (Inl DirNotEmpty, s)
               else unlink_entry result s)
         else unlink_entry result s)"

section \<open>fs\_read\<close>

text \<open>
  The bytes written to the standard output, in order. The loop ends when nothing
  remains to read or the current cluster is 0xFFFF; then the newline is printed.
\<close>

function read_loop :: "fs_state \<Rightarrow> nat \<Rightarrow> cluster_idx \<Rightarrow> byte list \<Rightarrow> status \<times> byte list" where
  "read_loop s bytes_to_read current_cluster out =
     (if 0 < bytes_to_read \<and> current_cluster < FAT_ENTRY_EOF then
        (case read_cluster s current_cluster of
           Inl e \<Rightarrow> (Inl IOError, out)
         | Inr buffer \<Rightarrow>
            (let len = (if CLUSTER_SIZE < bytes_to_read then CLUSTER_SIZE else bytes_to_read)
             in read_loop s (bytes_to_read - len) (fat s current_cluster)
                  (out @ map buffer [0 ..< len])))
      else (Inr (), out @ [0x0A]))"
  by pat_completeness auto
termination
  by (relation "measure (\<lambda>(s, bytes_to_read, current_cluster, out). bytes_to_read)") auto

declare read_loop.simps [simp del]

definition fs_read :: "byte list \<Rightarrow> fs_state \<Rightarrow> status \<times> byte list" where
  "fs_read path s =
     (case find_entry_by_path path s of
        Inl e \<Rightarrow> (Inl NotFound, [])
      | Inr result \<Rightarrow>
         if \<not> found result then (Inl NotFound, [])
         else if attributes (entry result) \<noteq> ATTR_ARCHIVE then (Inl NotAFile, [])
         else read_loop s (unat (esize (entry result))) (first_block (entry result)) [])"

section \<open>fs\_write\<close>

text \<open>
  The allocation loop, with \<open>pos = p - content\<close>. It returns the first cluster of the new
  chain, or the failure after the rollback.
\<close>

function write_loop :: "byte list \<Rightarrow> nat \<Rightarrow> nat \<Rightarrow> cluster_idx \<Rightarrow> cluster_idx \<Rightarrow> fs_state
                          \<Rightarrow> (error + cluster_idx) \<times> fs_state" where
  "write_loop content content_len pos first_cluster current_cluster s =
     (if pos < content_len then
        (let next_cluster = find_free_cluster (fat s) in
         if next_cluster = 0 then
           (case free_cluster_chain (fat s) first_cluster of
              Inl e \<Rightarrow> (Inl e, s)
            | Inr t \<Rightarrow> (Inl NoSpace, s\<lparr>fat := t\<rparr>))
         else
           (let t1 = (if first_cluster = 0 then fat s else (fat s)(current_cluster := next_cluster));
                first_cluster1 = (if first_cluster = 0 then next_cluster else first_cluster);
                s1 = s\<lparr>fat := t1(next_cluster := FAT_ENTRY_EOF)\<rparr>;
                len = (if CLUSTER_SIZE < content_len - pos then CLUSTER_SIZE else content_len - pos);
                buffer = (\<lambda>j. if j < len then content ! (pos + j) else 0)
            in case write_cluster next_cluster buffer s1 of
                 Inl e \<Rightarrow> (Inl IOError, s1)
               | Inr s2 \<Rightarrow> write_loop content content_len (pos + len) first_cluster1 next_cluster s2))
      else (Inr first_cluster, s))"
  by pat_completeness auto
termination
  by (relation "measure (\<lambda>(content, content_len, pos, first_cluster, current_cluster, s).
                           content_len - pos)") auto

declare write_loop.simps [simp del]

text \<open>The update of the entry in the parent cluster, and the writes that end a mutation.\<close>

definition store_entry_and_fat :: "cluster_idx \<Rightarrow> (cluster \<Rightarrow> cluster) \<Rightarrow> fs_state \<Rightarrow> status \<times> fs_state" where
  "store_entry_and_fat parent upd s =
     (case read_cluster s parent of
        Inl e \<Rightarrow> (Inl IOError, s)
      | Inr parent_dir_content \<Rightarrow>
         (case write_cluster parent (upd parent_dir_content) s of
            Inl e \<Rightarrow> (Inl IOError, s)
          | Inr s1 \<Rightarrow>
             (case persist_fat s1 of
                Inl e \<Rightarrow> (Inl IOError, s1)
              | Inr s2 \<Rightarrow> (Inr (), s2))))"

definition fs_write :: "byte list \<Rightarrow> byte list \<Rightarrow> fs_state \<Rightarrow> status \<times> fs_state" where
  "fs_write path content s =
     (case find_entry_by_path path s of
        Inl e \<Rightarrow> (Inl NotFound, s)
      | Inr result \<Rightarrow>
         if \<not> found result then (Inl NotFound, s)
         else if attributes (entry result) \<noteq> ATTR_ARCHIVE then (Inl NotAFile, s)
         else
           (case free_cluster_chain (fat s) (first_block (entry result)) of
              Inl e \<Rightarrow> (Inl e, s)
            | Inr t \<Rightarrow>
               (let s1 = s\<lparr>fat := t\<rparr>;
                    content_len = length (cstr content) mod 2 ^ 32;
                    (r, s2) =
                      (if 0 < content_len then write_loop (cstr content) content_len 0 0 0 s1
                       else
                         (let first_cluster = find_free_cluster (fat s1)
                          in (Inr first_cluster,
                              s1\<lparr>fat := (fat s1)(first_cluster := FAT_ENTRY_EOF)\<rparr>)))
                in case r of
                     Inl e \<Rightarrow> (Inl e, s2)
                   | Inr first_cluster \<Rightarrow>
                       store_entry_and_fat (parent_cluster result)
                         (\<lambda>buf. put_le32 (32 * entry_index result + 28) (of_nat content_len)
                                  (put_le16 (32 * entry_index result + 26) first_cluster buf))
                         s2)))"

section \<open>fs\_append\<close>

text \<open>
  The walk to the last cluster of the chain reads the table without a bound on the
  index and does not end on a chain that never reaches 0xFFFF: \<open>None\<close> is the loop that
  does not return, \<open>Undefined\<close> an index outside the table.
\<close>

partial_function (option) find_chain_tail :: "fat_table \<Rightarrow> cluster_idx \<Rightarrow> (error + cluster_idx) option" where
  "find_chain_tail t current_cluster =
     (if \<not> current_cluster < CLUSTER_COUNT then Some (Inl Undefined)
      else if t current_cluster \<noteq> FAT_ENTRY_EOF then find_chain_tail t (t current_cluster)
      else Some (Inr current_cluster))"

text \<open>The main loop, with \<open>pos = p - content\<close>.\<close>

function append_loop :: "byte list \<Rightarrow> nat \<Rightarrow> nat \<Rightarrow> cluster_idx \<Rightarrow> nat \<Rightarrow> cluster \<Rightarrow> fs_state
                           \<Rightarrow> status \<times> fs_state" where
  "append_loop content remaining_content pos current_cluster offset_in_cluster buffer s =
     (if 0 < remaining_content then
        (let space_in_buffer = CLUSTER_SIZE - offset_in_cluster;
             bytes_to_copy = (if space_in_buffer < remaining_content then space_in_buffer
                              else remaining_content);
             buffer1 = (\<lambda>j. if offset_in_cluster \<le> j \<and> j < offset_in_cluster + bytes_to_copy
                             then content ! (pos + (j - offset_in_cluster)) else buffer j);
             remaining1 = remaining_content - bytes_to_copy
         in case write_cluster current_cluster buffer1 s of
              Inl e \<Rightarrow> (Inl IOError, s)
            | Inr s1 \<Rightarrow>
               if 0 < remaining1 then
                 (let new_cluster = find_free_cluster (fat s1) in
                  if new_cluster = 0 then (Inl NoSpace, s1)
                  else append_loop content remaining1 (pos + bytes_to_copy) new_cluster 0 zero_cluster
                         (s1\<lparr>fat := (fat s1)(current_cluster := new_cluster,
                                              new_cluster := FAT_ENTRY_EOF)\<rparr>))
               else (Inr (), s1))
      else (Inr (), s))"
  by pat_completeness auto
termination
  by (relation "measure (\<lambda>(content, remaining_content, pos, current_cluster, offset_in_cluster, buffer, s).
                           2 * remaining_content + (if offset_in_cluster < CLUSTER_SIZE then 0 else 1))")
     (auto split: if_splits)

declare append_loop.simps [simp del]

definition append_from_tail :: "path_search_result \<Rightarrow> byte list \<Rightarrow> nat \<Rightarrow> cluster_idx \<Rightarrow> fs_state
                                  \<Rightarrow> status \<times> fs_state" where
  "append_from_tail result content content_len current_cluster s =
     (let original_size = unat (esize (entry result));
          offset_in_cluster = original_size mod CLUSTER_SIZE;
          finish = (\<lambda>(r, s'). case r of
                      Inl e \<Rightarrow> (Inl e, s')
                    | Inr u \<Rightarrow>
                        store_entry_and_fat (parent_cluster result)
                          (put_le32 (32 * entry_index result + 28)
                             (esize (entry result) + of_nat content_len)) s')
      in if offset_in_cluster = 0 \<and> 0 < original_size then
           (let new_cluster = find_free_cluster (fat s) in
            if new_cluster = 0 then (Inl NoSpace, s)
            else finish (append_loop content content_len 0 new_cluster offset_in_cluster zero_cluster
                           (s\<lparr>fat := (fat s)(current_cluster := new_cluster,
                                               new_cluster := FAT_ENTRY_EOF)\<rparr>)))
         else
           (case read_cluster s current_cluster of
              Inl e \<Rightarrow> (Inl IOError, s)
            | Inr buffer \<Rightarrow>
                finish (append_loop content content_len 0 current_cluster offset_in_cluster buffer s)))"

definition fs_append :: "byte list \<Rightarrow> byte list \<Rightarrow> fs_state \<Rightarrow> (status \<times> fs_state) option" where
  "fs_append path content s =
     (case find_entry_by_path path s of
        Inl e \<Rightarrow> Some (Inl NotFound, s)
      | Inr result \<Rightarrow>
         if \<not> found result then Some (Inl NotFound, s)
         else if attributes (entry result) \<noteq> ATTR_ARCHIVE then Some (Inl NotAFile, s)
         else
           (let content_len = length (cstr content) mod 2 ^ 32 in
            if content_len = 0 then Some (Inr (), s)
            else if 0 < unat (esize (entry result)) then
              (case find_chain_tail (fat s) (first_block (entry result)) of
                 None \<Rightarrow> None
               | Some (Inl e) \<Rightarrow> Some (Inl e, s)
               | Some (Inr tail) \<Rightarrow> Some (append_from_tail result (cstr content) content_len tail s))
            else Some (append_from_tail result (cstr content) content_len
                         (first_block (entry result)) s)))"


section \<open>Sequences of commands\<close>

text \<open>
  The shell runs \<open>init\<close> (fs\_format) and \<open>load\<close> (fs\_load\_fat), and then dispatches
  each command to its operation, whatever the previous one returned.
\<close>

definition bytes_of :: "string \<Rightarrow> byte list" where
  "bytes_of str = map of_char str"

datatype command =
    Mkdir "byte list" | Create "byte list" | Unlink "byte list"
  | Write "byte list" "byte list" | Append "byte list" "byte list"

fun run_command :: "command \<Rightarrow> fs_state \<Rightarrow> (status \<times> fs_state) option" where
  "run_command (Mkdir path) s = Some (fs_mkdir path s)"
| "run_command (Create path) s = Some (fs_create path s)"
| "run_command (Unlink path) s = Some (fs_unlink path s)"
| "run_command (Write path content) s = Some (fs_write path content s)"
| "run_command (Append path content) s = fs_append path content s"

fun run_commands :: "command list \<Rightarrow> fs_state \<Rightarrow> fs_state option" where
  "run_commands [] s = Some s"
| "run_commands (c # cs) s =
     (case run_command c s of None \<Rightarrow> None | Some (r, s') \<Rightarrow> run_commands cs s')"

definition init_and_load :: "fs_state option" where
  "init_and_load =
     (case fs_format of
        Inl e \<Rightarrow> None
      | Inr s \<Rightarrow> (case fs_load_fat s of Inl e \<Rightarrow> None | Inr s' \<Rightarrow> Some s'))"


text \<open>The state that \<open>init\<close> and \<open>load\<close> produce, in closed form.\<close>

definition formatted_disk :: "cluster_idx \<Rightarrow> cluster" where
  "formatted_disk = with_fat_region format_fat ((\<lambda>_. zero_cluster)(0 := (\<lambda>_. 0xBB)))"

definition formatted_fs :: fs_state where
  "formatted_fs = \<lparr>fat = format_fat, disk = formatted_disk\<rparr>"


text \<open>The state after \<open>init\<close>, \<open>load\<close> and \<open>mkdir /a\<close>.\<close>

definition fs_with_dir_a :: fs_state where
  "fs_with_dir_a = snd (fs_mkdir (bytes_of ''/a'') formatted_fs)"

definition result_a_b :: path_search_result where
  "result_a_b =
     \<lparr>name = strncpy 17 (bytes_of ''b'') @ [0], found = False, parent_cluster = 9,
      entry_cluster = 10, entry_index = 0,
      entry = dir_entry_at (set_new_entry 0 (bytes_of ''a'') ATTR_DIRECTORY 10 zero_cluster) 0\<rparr>"

text \<open>The state after \<open>init\<close>, \<open>load\<close>, \<open>create /f\<close> and \<open>write "x" /f\<close>.\<close>

definition fs_with_file_x :: fs_state where
  "fs_with_file_x =
     snd (fs_write (bytes_of ''/f'') (bytes_of ''x'') (snd (fs_create (bytes_of ''/f'') formatted_fs)))"

definition root_with_f :: cluster where
  "root_with_f =
     put_le32 28 1 (put_le16 26 10 (set_new_entry 0 (bytes_of ''f'') ATTR_ARCHIVE 10 zero_cluster))"

definition data_x :: cluster where
  "data_x = (\<lambda>j. if j < 1 then bytes_of ''x'' ! (0 + j) else 0)"

text \<open>An entry of the FAT mirror after \<open>init\<close>, \<open>load\<close> and a sequence of commands.\<close>

definition fat_entry_after :: "command list \<Rightarrow> cluster_idx \<Rightarrow> 16 word option" where
  "fat_entry_after cmds c =
     (case init_and_load of
        None \<Rightarrow> None
      | Some s \<Rightarrow> (case run_commands cmds s of None \<Rightarrow> None | Some s' \<Rightarrow> Some (fat s' c)))"

text \<open>
  A file system whose data area is full, with the file \<open>/h\<close> at cluster 10; and one
  whose only free data cluster, 12, holds the directory \<open>/d\<close> with the file \<open>g\<close> at
  cluster 11.
\<close>

definition full_fat :: fat_table where
  "full_fat = (\<lambda>c. if c = BOOT_BLOCK_CLUSTER then FAT_ENTRY_BOOT
                   else if 1 \<le> c \<and> c \<le> 8 then FAT_ENTRY_RESERVED
                   else FAT_ENTRY_EOF)"

definition root_h :: cluster where
  "root_h = set_new_entry 0 (bytes_of ''h'') ATTR_ARCHIVE 10 zero_cluster"

definition fs_full_h :: fs_state where
  "fs_full_h = \<lparr>fat = full_fat, disk = (\<lambda>_. zero_cluster)(9 := root_h)\<rparr>"

definition root_d :: cluster where
  "root_d = set_new_entry 0 (bytes_of ''d'') ATTR_DIRECTORY 12 zero_cluster"

definition dir_g :: cluster where
  "dir_g = set_new_entry 0 (bytes_of ''g'') ATTR_ARCHIVE 11 zero_cluster"

definition fs_free_dir :: fs_state where
  "fs_free_dir =
     \<lparr>fat = full_fat(12 := FAT_ENTRY_FREE),
      disk = (\<lambda>_. zero_cluster)(9 := root_d, 12 := dir_g)\<rparr>"


section \<open>Chains and paths of a well-formed file system\<close>

text \<open>
  The notions below state the hypotheses and conclusions of the properties of the
  operations. A data cluster is one of the data area. A chain is the list of the
  clusters that the FAT links from a head up to the entry 0xFFFF.
\<close>

definition data_cluster :: "cluster_idx \<Rightarrow> bool" where
  "data_cluster c \<longleftrightarrow> DATA_CLUSTER_START \<le> c \<and> c < CLUSTER_COUNT"

fun is_chain :: "fat_table \<Rightarrow> cluster_idx list \<Rightarrow> bool" where
  "is_chain t [] = False"
| "is_chain t [c] = (data_cluster c \<and> t c = FAT_ENTRY_EOF)"
| "is_chain t (c # d # cs) = (data_cluster c \<and> t c = d \<and> is_chain t (d # cs))"

text \<open>The bytes of a cluster buffer, and those held by the clusters of a chain, in order.\<close>

definition cluster_bytes :: "cluster \<Rightarrow> byte list" where
  "cluster_bytes buf = map buf [0 ..< CLUSTER_SIZE]"

definition chain_bytes :: "fs_state \<Rightarrow> cluster_idx list \<Rightarrow> byte list" where
  "chain_bytes s cs = concat (map (\<lambda>c. cluster_bytes (disk s c)) cs)"

text \<open>The clusters that the loop of find\_entry\_by\_path reads for a list of tokens.\<close>

fun walk_clusters :: "fs_state \<Rightarrow> byte list list \<Rightarrow> cluster_idx \<Rightarrow> cluster_idx list" where
  "walk_clusters s [] current_cluster = []"
| "walk_clusters s (token # rest) current_cluster =
     current_cluster #
       (case find_token_slot (disk s current_cluster) token 0 of
          Inr (Some i) \<Rightarrow>
            walk_clusters s rest (first_block (dir_entry_at (disk s current_cluster) i))
        | _ \<Rightarrow> [])"

section \<open>A directory entry forged by the contents of a file\<close>

text \<open>
  The 27 bytes of \<open>c27\<close>, written to a file, make slot 0 of its data cluster read as
  an entry whose name is these 27 bytes, with attribute directory (byte 18) and first
  block 11 (bytes 26 and 27). The states are those after \<open>create /f\<close> and
  \<open>write c27 /f\<close>, then after \<open>create /f/c27/g\<close>, then after \<open>write "x" /f/c27/g\<close>.
\<close>

definition c27 :: "byte list" where
  "c27 = [0x41, 0x41, 0x41, 0x41, 0x41, 0x41, 0x41, 0x41, 0x41,
          0x41, 0x41, 0x41, 0x41, 0x41, 0x41, 0x41, 0x41, 0x41,
          0x01, 0x41, 0x41, 0x41, 0x41, 0x41, 0x41, 0x41, 0x0B]"

definition path_forged :: "byte list" where
  "path_forged = bytes_of ''/f/'' @ c27"

definition path_forged_g :: "byte list" where
  "path_forged_g = path_forged @ bytes_of ''/g''"

definition root_f27 :: cluster where
  "root_f27 =
     put_le32 28 27 (put_le16 26 10 (set_new_entry 0 (bytes_of ''f'') ATTR_ARCHIVE 10 zero_cluster))"

definition data_c27 :: cluster where
  "data_c27 = (\<lambda>j. if j < 27 then c27 ! (0 + j) else 0)"

definition dir_forged :: cluster where
  "dir_forged = set_new_entry 0 (bytes_of ''g'') ATTR_ARCHIVE 11 zero_cluster"

definition fs_forged :: fs_state where
  "fs_forged =
     \<lparr>fat = format_fat(10 := FAT_ENTRY_EOF),
      disk = with_fat_region (format_fat(10 := FAT_ENTRY_EOF))
               (formatted_disk(10 := data_c27, 9 := root_f27))\<rparr>"

definition fs_forged_g :: fs_state where
  "fs_forged_g =
     \<lparr>fat = format_fat(10 := FAT_ENTRY_EOF, 11 := FAT_ENTRY_EOF),
      disk = with_fat_region (format_fat(10 := FAT_ENTRY_EOF, 11 := FAT_ENTRY_EOF))
               (formatted_disk(10 := data_c27, 9 := root_f27, 11 := dir_forged))\<rparr>"

definition fs_forged_written :: fs_state where
  "fs_forged_written =
     \<lparr>fat = format_fat(10 := FAT_ENTRY_EOF, 11 := FAT_ENTRY_EOF),
      disk = with_fat_region (format_fat(10 := FAT_ENTRY_EOF, 11 := FAT_ENTRY_EOF))
               (formatted_disk(10 := data_c27, 9 := root_f27,
                               11 := put_le32 28 1 (put_le16 26 11 data_x)))\<rparr>"

section \<open>Properties of free\_cluster\_chain\<close>

lemma on_chain_unfold:
  assumes "cur \<noteq> 0" "cur < FAT_ENTRY_EOF" "cur < CLUSTER_COUNT"
    and f0: "t' cur = 0" and fo: "\<And>c. c \<noteq> cur \<Longrightarrow> t' c = t c"
  shows "on_chain t cur c \<longleftrightarrow> c = cur \<or> on_chain t' (t cur) c"
proof
  assume "on_chain t cur c"
  then show "c = cur \<or> on_chain t' (t cur) c"
  proof (induction rule: on_chain.induct)
    case on_chain_head
    then show ?case by simp
  next
    case (on_chain_next c)
    show ?case
    proof (cases "c = cur")
      case True
      with on_chain_next show ?thesis by (auto intro: on_chain.on_chain_head)
    next
      case False
      with on_chain_next have "on_chain t' (t cur) c" by simp
      from on_chain.on_chain_next [OF this] False on_chain_next.hyps fo [of c]
      show ?thesis by simp
    qed
  qed
next
  assume r: "c = cur \<or> on_chain t' (t cur) c"
  show "on_chain t cur c"
  proof (cases "c = cur")
    case True
    with assms show ?thesis by (simp add: on_chain.on_chain_head)
  next
    case False
    with r have "on_chain t' (t cur) c" by simp
    then show ?thesis
    proof (induction rule: on_chain.induct)
      case on_chain_head
      from on_chain.on_chain_next [OF on_chain.on_chain_head [OF assms(1,2)] assms(3)] on_chain_head
      show ?case by simp
    next
      case (on_chain_next c)
      then have "c \<noteq> cur" using f0 by auto
      with on_chain_next fo [of c] show ?case by (auto intro: on_chain.on_chain_next)
    qed
  qed
qed

lemma on_chain_stop: "cur = 0 \<or> \<not> cur < FAT_ENTRY_EOF \<Longrightarrow> \<not> on_chain t cur c"
proof
  assume a: "cur = 0 \<or> \<not> cur < FAT_ENTRY_EOF" and "on_chain t cur c"
  from this(2) a show False by (induction rule: on_chain.induct) auto
qed

lemma free_cluster_chain_result:
  "free_cluster_chain t head = Inr t' \<Longrightarrow> t' = (\<lambda>c. if on_chain t head c then 0 else t c)"
proof (induction t head rule: free_cluster_chain.induct)
  case (1 t current)
  show ?case
  proof (cases "current \<noteq> 0 \<and> current < FAT_ENTRY_EOF")
    case False
    with 1 show ?thesis by (auto simp: free_cluster_chain.simps [of t current] on_chain_stop)
  next
    case True
    with "1.prems" have c: "current < CLUSTER_COUNT"
      by (auto simp: free_cluster_chain.simps [of t current] split: if_splits)
    with True "1.prems" have "free_cluster_chain (t(current := 0)) (t current) = Inr t'"
      by (simp add: free_cluster_chain.simps [of t current])
    from "1.IH" [OF True _ this] c
    have "t' = (\<lambda>c. if on_chain (t(current := 0)) (t current) c then 0 else (t(current := 0)) c)"
      by (simp del: fun_upd_apply)
    moreover have "\<And>c. on_chain t current c \<longleftrightarrow> c = current \<or> on_chain (t(current := 0)) (t current) c"
      using True c by (intro on_chain_unfold) auto
    ultimately show ?thesis by (auto simp del: fun_upd_apply simp add: fun_eq_iff fun_upd_def)
  qed
qed

lemma free_cluster_chain_defined:
  "(\<exists>t'. free_cluster_chain t head = Inr t') \<longleftrightarrow> (\<forall>c. on_chain t head c \<longrightarrow> c < CLUSTER_COUNT)"
proof (induction t head rule: free_cluster_chain.induct)
  case (1 t current)
  show ?case
  proof (cases "current \<noteq> 0 \<and> current < FAT_ENTRY_EOF")
    case False
    then show ?thesis by (auto simp: free_cluster_chain.simps [of t current] on_chain_stop)
  next
    case True
    show ?thesis
    proof (cases "current < CLUSTER_COUNT")
      case False
      with True have "on_chain t current current" by (simp add: on_chain_head)
      with False True show ?thesis by (auto simp: free_cluster_chain.simps [of t current])
    next
      case c: True
      have u: "\<And>c. on_chain t current c \<longleftrightarrow> c = current \<or> on_chain (t(current := 0)) (t current) c"
        using True c by (intro on_chain_unfold) auto
      have "free_cluster_chain t current = free_cluster_chain (t(current := 0)) (t current)"
        using True c by (simp add: free_cluster_chain.simps [of t current])
      with "1.IH" [OF True] c show ?thesis
        by (simp del: fun_upd_apply add: u)
    qed
  qed
qed


text \<open>
  Claim C5, as the specification states it: free\_cluster\_chain stops as soon as the
  current value is 0 or any sentinel from 0xFFFD on. The code stops at 0 and at 0xFFFF
  only: with FAT[10] = 0xFFFD the loop written from the specification returns after
  freeing entry 10, while the loop of the code enters its body with current = 0xFFFD
  and indexes the table there.
\<close>

theorem free_cluster_chain_sentinel_counterexample:
  "spec_free_chain fat_sentinel_example 10 = Inr (fat_sentinel_example(10 := 0)) \<and>
   free_cluster_chain fat_sentinel_example 10 = Inl Undefined"
  by (simp add: spec_free_chain.simps free_cluster_chain.simps fat_sentinel_example_def)

text \<open>
  Claim C5, amended: when free\_cluster\_chain returns, the entries it has set to Free
  are exactly those on the chain of the head, where the chain continues through every
  value other than 0 and 0xFFFF, and all other entries are unchanged; it returns
  exactly when that chain stays inside the table.
\<close>

theorem free_cluster_chain_frees_chain:
  "(free_cluster_chain t head = Inr t' \<longrightarrow>
      t' = (\<lambda>c. if on_chain t head c then FAT_ENTRY_FREE else t c)) \<and>
   ((\<exists>t''. free_cluster_chain t head = Inr t'') \<longleftrightarrow>
      (\<forall>c. on_chain t head c \<longrightarrow> c < CLUSTER_COUNT))"
  using free_cluster_chain_result [of t head t'] free_cluster_chain_defined [of t head]
  by blast

theorem free_cluster_chain_frees_chain_witness:
  "free_cluster_chain fat_two_chain_example 10 = Inr (fat_two_chain_example(10 := 0, 11 := 0)) \<and>
   fat_two_chain_example(10 := 0, 11 := 0) =
     (\<lambda>c. if on_chain fat_two_chain_example 10 c then 0 else fat_two_chain_example c)"
proof -
  have r: "free_cluster_chain fat_two_chain_example 10 = Inr (fat_two_chain_example(10 := 0, 11 := 0))"
    by (simp add: free_cluster_chain.simps fat_two_chain_example_def)
  with free_cluster_chain_frees_chain [of fat_two_chain_example 10 "fat_two_chain_example(10 := 0, 11 := 0)"]
  show ?thesis by blast
qed

section \<open>The FAT region and the integer codec\<close>

lemma not_4096_le_1 [simp]: "\<not> (4096::16 word) \<le> 1" by (simp add: word_le_nat_alt)

lemma unat_fat_cluster: "i < 8 \<Longrightarrow> unat (1 + of_nat i :: 16 word) = Suc i"
  by (simp add: unat_word_ariths unat_of_nat)

lemma persist_fat_from_eq:
  "i + n \<le> 8 \<Longrightarrow>
   persist_fat_from i n s =
     Inr (s\<lparr>disk := (\<lambda>c. if i < unat c \<and> unat c \<le> i + n then fat_as_bytes (fat s) (unat c - 1)
                           else disk s c)\<rparr>)"
proof (induction n arbitrary: i s)
  case 0
  have "(\<lambda>c. if i < unat c \<and> unat c \<le> i + 0 then fat_as_bytes (fat s) (unat c - 1) else disk s c)
        = disk s"
    by (rule ext) auto
  then show ?case by simp
next
  case (Suc n)
  then have i: "i < 8" by simp
  have w: "\<not> CLUSTER_COUNT \<le> (1 + of_nat i :: 16 word)"
    using unat_fat_cluster [OF i] i by (simp add: word_le_nat_alt)
  let ?s' = "s\<lparr>disk := (disk s)(1 + of_nat i := fat_as_bytes (fat s) i)\<rparr>"
  have "persist_fat_from i (Suc n) s = persist_fat_from (Suc i) n ?s'"
    using w by (simp add: write_cluster_def)
  also have "\<dots> = Inr (?s'\<lparr>disk := (\<lambda>c. if Suc i < unat c \<and> unat c \<le> Suc i + n
                                          then fat_as_bytes (fat ?s') (unat c - 1) else disk ?s' c)\<rparr>)"
    using Suc.prems by (intro Suc.IH) simp
  also have "\<dots> = Inr (s\<lparr>disk := (\<lambda>c. if i < unat c \<and> unat c \<le> i + Suc n
                                        then fat_as_bytes (fat s) (unat c - 1) else disk s c)\<rparr>)"
  proof -
    have "(\<lambda>c. if Suc i < unat c \<and> unat c \<le> Suc i + n
               then fat_as_bytes (fat ?s') (unat c - 1) else disk ?s' c)
        = (\<lambda>c. if i < unat c \<and> unat c \<le> i + Suc n
               then fat_as_bytes (fat s) (unat c - 1) else disk s c)"
    proof (rule ext)
      fix c :: "16 word"
      show "(if Suc i < unat c \<and> unat c \<le> Suc i + n
               then fat_as_bytes (fat ?s') (unat c - 1) else disk ?s' c)
          = (if i < unat c \<and> unat c \<le> i + Suc n
               then fat_as_bytes (fat s) (unat c - 1) else disk s c)"
      proof (cases "c = 1 + of_nat i")
        case True
        then show ?thesis using unat_fat_cluster [OF i] by simp
      next
        case False
        then have "unat c \<noteq> Suc i"
          using unat_fat_cluster [OF i] by (simp add: word_unat_eq_iff)
        with False show ?thesis by auto
      qed
    qed
    then show ?thesis by simp
  qed
  finally show ?case .
qed

lemma persist_fat_eq:
  "persist_fat s = Inr (s\<lparr>disk := with_fat_region (fat s) (disk s)\<rparr>)"
proof -
  have "\<And>c::16 word. (0 < unat c \<and> unat c \<le> 0 + 8) = (1 \<le> c \<and> c \<le> 8)"
    by (auto simp: word_le_nat_alt)
  then show ?thesis
    using persist_fat_from_eq [of 0 8 s] by (simp add: persist_fat_def with_fat_region_def)
qed

lemma with_fat_region_apply:
  "with_fat_region t d c = (if 1 \<le> c \<and> c \<le> 8 then fat_as_bytes t (unat c - 1) else d c)"
  by (simp add: with_fat_region_def)

lemma with_fat_region_data [simp]: "9 \<le> c \<Longrightarrow> with_fat_region t d c = d c"
  by (auto simp: with_fat_region_def word_le_nat_alt)

lemma with_fat_region_boot [simp]: "with_fat_region t d 0 = d 0"
  by (simp add: with_fat_region_def)

lemma le16_put_le16: "le16 (put_le16 off w buf) off = w"
  unfolding le16_def put_le16_def
  by (rule bit_word_eqI) (auto simp: bit_simps)

lemma le32_put_le32: "le32 (put_le32 off w buf) off = w"
  unfolding le32_def put_le32_def
proof (rule bit_word_eqI)
  fix n :: nat
  assume "n < LENGTH(32)"
  then consider "n < 8" | "8 \<le> n" "n < 16" | "16 \<le> n" "n < 24" | "24 \<le> n" "n < 32"
    by fastforce
  then show "bit (ucast ((buf(off := ucast w, off + 1 := ucast (drop_bit 8 w),
                 off + 2 := ucast (drop_bit 16 w), off + 3 := ucast (drop_bit 24 w))) off) OR
               push_bit 8 (ucast ((buf(off := ucast w, off + 1 := ucast (drop_bit 8 w),
                 off + 2 := ucast (drop_bit 16 w), off + 3 := ucast (drop_bit 24 w))) (off + 1))) OR
               push_bit 16 (ucast ((buf(off := ucast w, off + 1 := ucast (drop_bit 8 w),
                 off + 2 := ucast (drop_bit 16 w), off + 3 := ucast (drop_bit 24 w))) (off + 2))) OR
               push_bit 24 (ucast ((buf(off := ucast w, off + 1 := ucast (drop_bit 8 w),
                 off + 2 := ucast (drop_bit 16 w), off + 3 := ucast (drop_bit 24 w))) (off + 3))) :: 32 word) n
             = bit w n"
    by cases (auto simp: bit_simps)
qed

lemma le16_fat_as_bytes:
  "le16 (fat_as_bytes t i) (2 * k) = t (of_nat (512 * i + k))"
  unfolding le16_def fat_as_bytes_def
  by (rule bit_word_eqI) (auto simp: bit_simps Let_def)

lemma read_cluster_in: "c < CLUSTER_COUNT \<Longrightarrow> read_cluster s c = Inr (disk s c)"
  by (simp add: read_cluster_def not_le [symmetric])

lemma read_cluster_out: "\<not> c < CLUSTER_COUNT \<Longrightarrow> read_cluster s c = Inl IOError"
  by (simp add: read_cluster_def not_le [symmetric])

lemma read_cluster_Inr: "read_cluster s c = Inr b \<longleftrightarrow> c < CLUSTER_COUNT \<and> b = disk s c"
  by (auto simp: read_cluster_def not_le [symmetric])

lemma write_cluster_in:
  "c < CLUSTER_COUNT \<Longrightarrow> write_cluster c b s = Inr (s\<lparr>disk := (disk s)(c := b)\<rparr>)"
  by (simp add: write_cluster_def not_le [symmetric])

lemma write_cluster_out: "\<not> c < CLUSTER_COUNT \<Longrightarrow> write_cluster c b s = Inl IOError"
  by (simp add: write_cluster_def not_le [symmetric])

lemma with_fat_region_absorb [simp]:
  "with_fat_region t (with_fat_region t' d) = with_fat_region t d"
  by (rule ext) (simp add: with_fat_region_def)

lemma with_fat_region_upd [simp]:
  "9 \<le> c \<Longrightarrow> (with_fat_region t d)(c := b) = with_fat_region t (d(c := b))"
  by (rule ext) (auto simp: with_fat_region_def word_le_nat_alt)

section \<open>fs\_format followed by fs\_load\_fat\<close>

lemma fs_format_eq: "fs_format = Inr formatted_fs"
proof -
  have "(with_fat_region format_fat
            ((\<lambda>_. zero_cluster)(0 := (\<lambda>_. 0xBB), 1 := fat_as_bytes format_fat 0)))(9 := zero_cluster)
        = formatted_disk"
    unfolding formatted_disk_def
    by (rule ext) (auto simp: with_fat_region_apply word_le_nat_alt)
  then show ?thesis
    by (simp add: fs_format_def write_cluster_def persist_fat_eq Let_def formatted_fs_def)
qed

lemma load_fat_from_eq:
  "i + n \<le> 8 \<Longrightarrow>
   load_fat_from i n s =
     Inr (s\<lparr>fat := (\<lambda>c. if 512 * i \<le> unat c \<and> unat c < 512 * (i + n)
                         then le16 (disk s (1 + of_nat (unat c div 512))) (2 * (unat c mod 512))
                         else fat s c)\<rparr>)"
proof (induction n arbitrary: i s)
  case 0
  have "(\<lambda>c. if 512 * i \<le> unat c \<and> unat c < 512 * (i + 0)
                         then le16 (disk s (1 + of_nat (unat c div 512))) (2 * (unat c mod 512))
                         else fat s c) = fat s"
    by (rule ext) auto
  then show ?case by simp
next
  case (Suc n)
  then have i: "i < 8" by simp
  have w: "\<not> CLUSTER_COUNT \<le> (1 + of_nat i :: 16 word)"
    using unat_fat_cluster [OF i] i by (simp add: word_le_nat_alt)
  let ?s' = "s\<lparr>fat := load_fat_cluster i (disk s (1 + of_nat i)) (fat s)\<rparr>"
  have "load_fat_from i (Suc n) s = load_fat_from (Suc i) n ?s'"
    using w by (simp add: read_cluster_def)
  also have "\<dots> = Inr (?s'\<lparr>fat := (\<lambda>c. if 512 * Suc i \<le> unat c \<and> unat c < 512 * (Suc i + n)
                         then le16 (disk ?s' (1 + of_nat (unat c div 512))) (2 * (unat c mod 512))
                         else fat ?s' c)\<rparr>)"
    using Suc.prems by (intro Suc.IH) simp
  also have "\<dots> = Inr (s\<lparr>fat := (\<lambda>c. if 512 * i \<le> unat c \<and> unat c < 512 * (i + Suc n)
                         then le16 (disk s (1 + of_nat (unat c div 512))) (2 * (unat c mod 512))
                         else fat s c)\<rparr>)"
  proof -
    have "(\<lambda>c. if 512 * Suc i \<le> unat c \<and> unat c < 512 * (Suc i + n)
                         then le16 (disk ?s' (1 + of_nat (unat c div 512))) (2 * (unat c mod 512))
                         else fat ?s' c)
        = (\<lambda>c. if 512 * i \<le> unat c \<and> unat c < 512 * (i + Suc n)
                         then le16 (disk s (1 + of_nat (unat c div 512))) (2 * (unat c mod 512))
                         else fat s c)"
    proof (rule ext)
      fix c :: "16 word"
      show "(if 512 * Suc i \<le> unat c \<and> unat c < 512 * (Suc i + n)
                         then le16 (disk ?s' (1 + of_nat (unat c div 512))) (2 * (unat c mod 512))
                         else fat ?s' c)
        = (if 512 * i \<le> unat c \<and> unat c < 512 * (i + Suc n)
                         then le16 (disk s (1 + of_nat (unat c div 512))) (2 * (unat c mod 512))
                         else fat s c)"
      proof (cases "512 * i \<le> unat c \<and> unat c < 512 * (i + 1)")
        case True
        then have d: "unat c div 512 = i" by auto
        have m: "unat c mod 512 = unat c - 512 * i"
          using True d by (metis minus_mult_div_eq_mod mult.commute)
        show ?thesis using True d m by (simp add: load_fat_cluster_def)
      next
        case False
        then show ?thesis by (auto simp: load_fat_cluster_def)
      qed
    qed
    then show ?thesis by simp
  qed
  finally show ?case .
qed

lemma fs_load_fat_persisted:
  assumes "\<And>c. 1 \<le> c \<Longrightarrow> c \<le> 8 \<Longrightarrow> disk s c = fat_as_bytes t (unat c - 1)"
    and "\<And>c. \<not> c < CLUSTER_COUNT \<Longrightarrow> fat s c = t c"
  shows "fs_load_fat s = Inr (s\<lparr>fat := t\<rparr>)"
proof -
  have "(\<lambda>c. if 512 * 0 \<le> unat c \<and> unat c < 512 * (0 + 8)
                         then le16 (disk s (1 + of_nat (unat c div 512))) (2 * (unat c mod 512))
                         else fat s c) = t"
  proof (rule ext)
    fix c :: "16 word"
    show "(if 512 * 0 \<le> unat c \<and> unat c < 512 * (0 + 8)
                         then le16 (disk s (1 + of_nat (unat c div 512))) (2 * (unat c mod 512))
                         else fat s c) = t c"
    proof (cases "unat c < 4096")
      case True
      then have k: "unat c div 512 < 8" by simp
      have u: "unat (1 + of_nat (unat c div 512) :: 16 word) = Suc (unat c div 512)"
        by (rule unat_fat_cluster [OF k])
      then have "1 \<le> (1 + of_nat (unat c div 512) :: 16 word)" "(1 + of_nat (unat c div 512) :: 16 word) \<le> 8"
        using k by (simp_all add: word_le_nat_alt)
      from assms(1) [OF this] u
      have "disk s (1 + of_nat (unat c div 512)) = fat_as_bytes t (unat c div 512)" by simp
      then show ?thesis using True by (simp add: le16_fat_as_bytes)
    next
      case False
      then have "\<not> c < CLUSTER_COUNT" by (simp add: word_less_nat_alt)
      from assms(2) [OF this] False show ?thesis by simp
    qed
  qed
  then show ?thesis using load_fat_from_eq [of 0 8 s] by (simp add: fs_load_fat_def)
qed

lemma init_and_load_eq: "init_and_load = Some formatted_fs"
proof -
  have "fs_load_fat formatted_fs = Inr (formatted_fs\<lparr>fat := format_fat\<rparr>)"
    by (rule fs_load_fat_persisted)
       (simp_all add: formatted_fs_def formatted_disk_def with_fat_region_apply)
  then show ?thesis by (simp add: init_and_load_def fs_format_eq formatted_fs_def)
qed

section \<open>Evaluation on concrete states\<close>

lemma find_free_cluster_format: "find_free_cluster format_fat = 10"
  by (simp add: find_free_cluster_def find_free_cluster_from.simps format_fat_def)

lemma formatted_disk_root: "formatted_disk 9 = zero_cluster"
  by (simp add: formatted_disk_def)

lemma find_free_slot_zero: "find_free_slot zero_cluster 0 = Some 0"
  by (simp add: find_free_slot.simps zero_cluster_def)

lemmas eval_path = bytes_of_def cstr_def strtok_all.simps split_parent_def
lemmas eval_find = find_entry_by_path_def zero_result_def zero_entry_def read_cluster_def
  walk.simps find_token_slot.simps dir_entry_at_def le16_def le32_def
lemmas eval_buf = set_new_entry_def put_le16_def put_le32_def strncpy_def zero_cluster_def
lemmas eval_ops = find_free_dir_entry_def write_cluster_def persist_fat_eq Let_def
  find_free_cluster_format formatted_disk_root find_free_slot_zero

lemma fs_with_dir_a_eq:
  "fs_with_dir_a =
     \<lparr>fat = format_fat(10 := FAT_ENTRY_EOF),
      disk = with_fat_region (format_fat(10 := FAT_ENTRY_EOF))
               (formatted_disk(9 := set_new_entry 0 (bytes_of ''a'') ATTR_DIRECTORY 10 zero_cluster,
                               10 := zero_cluster))\<rparr>"
  by (simp add: fs_with_dir_a_def fs_mkdir_def formatted_fs_def eval_path eval_find eval_ops)

lemma walk_a_b:
  "walk fs_with_dir_a [bytes_of ''a'', bytes_of ''b''] ROOT_DIR_CLUSTER
        (zero_result\<lparr>parent_cluster := ROOT_DIR_CLUSTER\<rparr>) = Inr (result_a_b, 10)"
  by (simp add: fs_with_dir_a_eq result_a_b_def eval_path eval_find eval_buf Let_def)

lemma fs_create_f:
  "fs_create (bytes_of ''/f'') formatted_fs =
     (Inr (), \<lparr>fat = format_fat(10 := FAT_ENTRY_EOF),
               disk = with_fat_region (format_fat(10 := FAT_ENTRY_EOF))
                        (formatted_disk(9 := set_new_entry 0 (bytes_of ''f'') ATTR_ARCHIVE 10 zero_cluster))\<rparr>)"
  by (simp add: fs_create_def formatted_fs_def eval_path eval_find eval_ops)

lemma find_f_created:
  "find_entry_by_path (bytes_of ''/f'')
      \<lparr>fat = t, disk = with_fat_region t'
                        (formatted_disk(9 := set_new_entry 0 (bytes_of ''f'') ATTR_ARCHIVE 10 zero_cluster))\<rparr> =
   Inr \<lparr>name = strncpy 17 (bytes_of ''f'') @ [0], found = True, parent_cluster = 9, entry_cluster = 10,
        entry_index = 0,
        entry = dir_entry_at (set_new_entry 0 (bytes_of ''f'') ATTR_ARCHIVE 10 zero_cluster) 0\<rparr>"
  by (simp add: eval_path eval_find eval_buf)

lemma entry_f_created:
  "attributes (dir_entry_at (set_new_entry 0 (bytes_of ''f'') ATTR_ARCHIVE 10 zero_cluster) 0) = 0"
  "first_block (dir_entry_at (set_new_entry 0 (bytes_of ''f'') ATTR_ARCHIVE 10 zero_cluster) 0) = 10"
  by (simp_all add: eval_path eval_find eval_buf)

lemma free_chain_10: "free_cluster_chain (format_fat(10 := FAT_ENTRY_EOF)) 10 = Inr (format_fat(10 := 0))"
  by (simp add: free_cluster_chain.simps format_fat_def)

lemma find_free_cluster_10: "find_free_cluster (format_fat(10 := 0)) = 10"
  by (simp add: find_free_cluster_def find_free_cluster_from.simps)

lemma fs_with_file_x_eq:
  "fs_with_file_x =
     \<lparr>fat = format_fat(10 := FAT_ENTRY_EOF),
      disk = with_fat_region (format_fat(10 := FAT_ENTRY_EOF))
               (formatted_disk(10 := data_x, 9 := root_with_f))\<rparr>"
  unfolding fs_with_file_x_def fs_create_f
  apply (simp add: fs_write_def find_f_created entry_f_created free_chain_10 Let_def)
  apply (simp add: cstr_def bytes_of_def)
  apply (simp add: write_loop.simps find_free_cluster_10 Let_def write_cluster_def)
  apply (simp add: store_entry_and_fat_def read_cluster_def write_cluster_def persist_fat_eq
           data_x_def root_with_f_def)
  apply (simp add: cstr_def bytes_of_def cong: if_cong)
  done

lemma root_with_f_slot:
  "find_token_slot root_with_f (bytes_of ''f'') 0 = Inr (Some 0)"
  "attributes (dir_entry_at root_with_f 0) = ATTR_ARCHIVE"
  "first_block (dir_entry_at root_with_f 0) = 10"
  "esize (dir_entry_at root_with_f 0) = 1"
  by (simp_all add: root_with_f_def eval_path eval_find eval_buf)

lemma data_x_slot:
  "find_token_slot data_x (bytes_of ''x'') 0 = Inr (Some 0)"
  "attributes (dir_entry_at data_x 0) = ATTR_ARCHIVE"
  "first_block (dir_entry_at data_x 0) = 0"
  "esize (dir_entry_at data_x 0) = 0"
  by (simp_all add: data_x_def eval_path eval_find eval_buf)

lemma disk_fs_with_file_x:
  "disk fs_with_file_x 9 = root_with_f" "disk fs_with_file_x 10 = data_x"
  by (simp_all add: fs_with_file_x_eq)

section \<open>Properties of find\_entry\_by\_path\<close>

lemma walk_failure:
  assumes "walk s toks cur r0 = Inr (r, c)" and "\<not> found r"
  shows "\<exists>t \<in> set toks. c < CLUSTER_COUNT \<and> find_token_slot (disk s c) t 0 = Inr None \<and>
           name r = strncpy 17 t @ [0] \<and>
           ((c = cur \<and> r = r0\<lparr>name := strncpy 17 t @ [0], found := False\<rparr>) \<or>
            (parent_cluster r < CLUSTER_COUNT \<and>
             entry r = dir_entry_at (disk s (parent_cluster r)) (entry_index r) \<and>
             entry_cluster r = first_block (entry r) \<and> c = first_block (entry r)))"
  using assms
proof (induction toks arbitrary: cur r0)
  case Nil
  then show ?case by (auto simp: walk.simps)
next
  case (Cons token rest)
  from Cons.prems(1) have cur: "cur < CLUSTER_COUNT"
    by (cases "cur < CLUSTER_COUNT") (auto simp: read_cluster_out Let_def walk.simps)
  show ?case
  proof (cases "find_token_slot (disk s cur) token 0")
    case (Inl e)
    with Cons.prems cur show ?thesis by (simp add: read_cluster_in Let_def walk.simps)
  next
    case (Inr m)
    show ?thesis
    proof (cases m)
      case None
      with Inr Cons.prems cur show ?thesis
        by (auto simp: read_cluster_in Let_def walk.simps)
    next
      case (Some i)
      let ?e = "dir_entry_at (disk s cur) i"
      let ?r1 = "r0\<lparr>name := strncpy 17 token @ [0], parent_cluster := cur,
                     entry_cluster := first_block ?e, entry_index := i, entry := ?e\<rparr>"
      from Some Inr Cons.prems(1) cur
      have w: "walk s rest (first_block ?e) ?r1 = Inr (r, c)"
        by (simp add: read_cluster_in Let_def walk.simps)
      from Cons.IH [OF w Cons.prems(2)] obtain t where t: "t \<in> set rest" "c < CLUSTER_COUNT"
        "find_token_slot (disk s c) t 0 = Inr None" "name r = strncpy 17 t @ [0]"
        "(c = first_block ?e \<and> r = ?r1\<lparr>name := strncpy 17 t @ [0], found := False\<rparr>) \<or>
            (parent_cluster r < CLUSTER_COUNT \<and>
             entry r = dir_entry_at (disk s (parent_cluster r)) (entry_index r) \<and>
             entry_cluster r = first_block (entry r) \<and> c = first_block (entry r))"
        by blast
      from t(5) cur have "parent_cluster r < CLUSTER_COUNT \<and>
             entry r = dir_entry_at (disk s (parent_cluster r)) (entry_index r) \<and>
             entry_cluster r = first_block (entry r) \<and> c = first_block (entry r)"
        by auto
      with t show ?thesis by auto
    qed
  qed
qed






section \<open>Operations on the root path\<close>

lemma find_root: "find_entry_by_path [SLASH] s =
  Inr (zero_result\<lparr>parent_cluster := ROOT_DIR_CLUSTER, found := True, entry_cluster := ROOT_DIR_CLUSTER,
         entry := zero_entry\<lparr>attributes := ATTR_DIRECTORY, filename := SLASH # replicate 17 0\<rparr>\<rparr>)"
  by (simp add: find_entry_by_path_def eval_path zero_result_def)

lemma free_cluster_chain_0: "free_cluster_chain t 0 = Inr t"
  by (simp add: free_cluster_chain.simps)

lemma fs_unlink_root_eq:
  "fs_unlink (bytes_of ''/'') s =
     (if dir_is_empty (disk s ROOT_DIR_CLUSTER)
      then (Inr (), s\<lparr>disk := with_fat_region (fat s)
                               ((disk s)(ROOT_DIR_CLUSTER := clear_entry 0 (disk s ROOT_DIR_CLUSTER)))\<rparr>)
      else (Inl DirNotEmpty, s))"
  by (simp add: bytes_of_def fs_unlink_def find_root unlink_entry_def zero_result_def zero_entry_def
        free_cluster_chain_0 read_cluster_in write_cluster_in persist_fat_eq)

lemma dir_is_empty_iff: "dir_is_empty buf \<longleftrightarrow> (\<forall>i<32. buf (32 * i) = 0)"
  by (auto simp: dir_is_empty_def list_all_iff)

lemma dir_is_empty_zero: "dir_is_empty zero_cluster"
  by (simp add: dir_is_empty_iff zero_cluster_def)


lemma fs_mkdir_root_eval:
  "fs_mkdir (bytes_of ''/'') formatted_fs =
    (Inr (), \<lparr>fat = format_fat(10 := FAT_ENTRY_EOF),
      disk = with_fat_region (format_fat(10 := FAT_ENTRY_EOF))
               (formatted_disk(9 := set_new_entry 0 [] ATTR_DIRECTORY 10 zero_cluster,
                               10 := zero_cluster))\<rparr>)"
  by (simp add: fs_mkdir_def formatted_fs_def eval_path find_root zero_result_def zero_entry_def
        eval_ops read_cluster_def)

text \<open>
  Claim C7: mkdir of the path \<open>/\<close> fails with an invalid-argument error and changes
  nothing. On the freshly formatted and loaded file system the code returns success
  instead: the split at the last slash gives the parent \<open>/\<close> and an empty name, the
  allocator hands out cluster 10, FAT[10] becomes 0xFFFF, and slot 0 of the root is
  written with an empty name (so that it still counts as free), the directory
  attribute and first block 10.
\<close>

theorem fs_mkdir_root_succeeds:
  "fst (fs_mkdir (bytes_of ''/'') formatted_fs) = Inr () \<and>
   fat formatted_fs 10 = FAT_ENTRY_FREE \<and>
   fat (snd (fs_mkdir (bytes_of ''/'') formatted_fs)) 10 = FAT_ENTRY_EOF \<and>
   disk (snd (fs_mkdir (bytes_of ''/'') formatted_fs)) ROOT_DIR_CLUSTER 0 = 0 \<and>
   attributes (dir_entry_at (disk (snd (fs_mkdir (bytes_of ''/'') formatted_fs)) ROOT_DIR_CLUSTER) 0)
     = ATTR_DIRECTORY \<and>
   first_block (dir_entry_at (disk (snd (fs_mkdir (bytes_of ''/'') formatted_fs)) ROOT_DIR_CLUSTER) 0)
     = 10"
  unfolding fs_mkdir_root_eval
  by (simp add: formatted_fs_def format_fat_def eval_buf dir_entry_at_def le16_def)

text \<open>
  Claim C8, as the specification states it: unlink of \<open>/\<close> returns failure. On the
  freshly formatted and loaded file system, whose root directory is empty, the code
  returns success.
\<close>

theorem fs_unlink_root_counterexample:
  "fst (fs_unlink (bytes_of ''/'') formatted_fs) = Inr ()"
  by (simp add: fs_unlink_root_eq formatted_fs_def formatted_disk_root dir_is_empty_zero)

text \<open>
  Claim C8, amended: unlink of \<open>/\<close> never removes the root and never changes the FAT
  mirror. When the root directory has an occupied slot it fails with directory not
  empty and changes nothing. When the root directory has no occupied slot it is not
  rejected: it returns success, and its only writes are the 32 bytes of slot 0 of the
  root cluster, which is not occupied and is zeroed, and the FAT region, rewritten
  from the mirror; the first byte of every slot of the root is unchanged.
\<close>

theorem fs_unlink_root:
  assumes "fs_unlink (bytes_of ''/'') s = (r, s')"
  shows "fat s' = fat s \<and>
         (\<not> dir_is_empty (disk s ROOT_DIR_CLUSTER) \<longrightarrow> r = Inl DirNotEmpty \<and> s' = s) \<and>
         (dir_is_empty (disk s ROOT_DIR_CLUSTER) \<longrightarrow>
            r = Inr () \<and>
            disk s' = with_fat_region (fat s)
                        ((disk s)(ROOT_DIR_CLUSTER := clear_entry 0 (disk s ROOT_DIR_CLUSTER)))) \<and>
         (\<forall>i<32. disk s' ROOT_DIR_CLUSTER (32 * i) = disk s ROOT_DIR_CLUSTER (32 * i)) \<and>
         (\<forall>c. 9 < c \<or> c = 0 \<longrightarrow> disk s' c = disk s c)"
proof (cases "dir_is_empty (disk s ROOT_DIR_CLUSTER)")
  case True
  with assms have s': "s' = s\<lparr>disk := with_fat_region (fat s)
                               ((disk s)(ROOT_DIR_CLUSTER := clear_entry 0 (disk s ROOT_DIR_CLUSTER)))\<rparr>"
    and r: "r = Inr ()"
    by (simp_all add: fs_unlink_root_eq)
  have "\<And>i. i < 32 \<Longrightarrow> clear_entry 0 (disk s ROOT_DIR_CLUSTER) (32 * i) = disk s ROOT_DIR_CLUSTER (32 * i)"
    using True by (auto simp: clear_entry_def dir_is_empty_iff)
  moreover have "\<And>c::cluster_idx. 9 < c \<or> c = 0 \<Longrightarrow> \<not> (1 \<le> c \<and> c \<le> 8)"
    by (auto simp: word_le_nat_alt word_less_nat_alt)
  ultimately show ?thesis using True s' r by (auto simp: with_fat_region_apply)
next
  case False
  with assms show ?thesis by (simp add: fs_unlink_root_eq)
qed

theorem fs_unlink_root_witness:
  "fs_unlink (bytes_of ''/'') fs_with_dir_a = (Inl DirNotEmpty, fs_with_dir_a) \<and>
   \<not> dir_is_empty (disk fs_with_dir_a ROOT_DIR_CLUSTER) \<and>
   fs_unlink (bytes_of ''/'') formatted_fs
     = (Inr (), formatted_fs\<lparr>disk := with_fat_region (fat formatted_fs)
                  ((disk formatted_fs)(ROOT_DIR_CLUSTER := clear_entry 0 (disk formatted_fs ROOT_DIR_CLUSTER)))\<rparr>) \<and>
   dir_is_empty (disk formatted_fs ROOT_DIR_CLUSTER) \<and>
   fat (snd (fs_unlink (bytes_of ''/'') formatted_fs)) = fat formatted_fs"
proof -
  have "disk fs_with_dir_a ROOT_DIR_CLUSTER (32 * 0) \<noteq> 0"
    by (simp add: fs_with_dir_a_eq eval_path eval_buf)
  then have ne: "\<not> dir_is_empty (disk fs_with_dir_a ROOT_DIR_CLUSTER)"
    unfolding dir_is_empty_iff by (intro notI) (metis zero_less_numeral)
  have e: "dir_is_empty (disk formatted_fs ROOT_DIR_CLUSTER)"
    by (simp add: formatted_fs_def formatted_disk_root dir_is_empty_zero)
  obtain r s' where u: "fs_unlink (bytes_of ''/'') fs_with_dir_a = (r, s')"
    by (cases "fs_unlink (bytes_of ''/'') fs_with_dir_a")
  obtain r2 s2 where u2: "fs_unlink (bytes_of ''/'') formatted_fs = (r2, s2)"
    by (cases "fs_unlink (bytes_of ''/'') formatted_fs")
  from fs_unlink_root [OF u] ne have 1: "r = Inl DirNotEmpty" "s' = fs_with_dir_a" by simp_all
  from fs_unlink_root [OF u2] e have 2: "fat s2 = fat formatted_fs" "r2 = Inr ()" by simp_all
  show ?thesis using u u2 1 2 ne e by (simp add: fs_unlink_root_eq)
qed

section \<open>The system region of the FAT\<close>

lemma find_f_x:
  "find_entry_by_path (bytes_of ''/f/x'') fs_with_file_x =
     Inr (zero_result\<lparr>name := strncpy 17 (bytes_of ''x'') @ [0], found := True,
                       parent_cluster := 10, entry_cluster := 0, entry_index := 0,
                       entry := dir_entry_at data_x 0\<rparr>)"
proof -
  have t: "strtok_all (take 511 (cstr (bytes_of ''/f/x''))) = [bytes_of ''f'', bytes_of ''x'']"
    by (simp add: eval_path)
  have p: "take 511 (cstr (bytes_of ''/f/x'')) \<noteq> [SLASH]"
    by (simp add: eval_path)
  show ?thesis
    unfolding find_entry_by_path_def Let_def t using p
    by (simp add: walk.simps read_cluster_in disk_fs_with_file_x root_with_f_slot data_x_slot Let_def)
qed

lemma ffc11: "find_free_cluster (format_fat(10 := FAT_ENTRY_EOF)) = 11"
  by (simp add: find_free_cluster_def find_free_cluster_from.simps format_fat_def)


lemma fs_append_f_x:
  "fs_append (bytes_of ''/f/x'') (replicate 1025 0x41) fs_with_file_x =
     Some (Inr (),
       \<lparr>fat = format_fat(10 := FAT_ENTRY_EOF, 0 := 11, 11 := FAT_ENTRY_EOF),
        disk = with_fat_region (format_fat(10 := FAT_ENTRY_EOF, 0 := 11, 11 := FAT_ENTRY_EOF))
                ((with_fat_region (format_fat(10 := FAT_ENTRY_EOF))
                    (formatted_disk(10 := data_x, 9 := root_with_f)))
                 (0 := \<lambda>j. if j < 1024 then replicate 1025 65 ! (0 + (j - 0))
                           else formatted_disk 0 j,
                  11 := \<lambda>j. if j = 0 then replicate 1025 65 ! (1024 + (j - 0))
                            else zero_cluster j,
                  10 := put_le32 28 1025 data_x))\<rparr>)"
  apply (simp add: fs_append_def find_f_x data_x_slot cstr_def)
  apply (simp add: append_from_tail_def data_x_slot Let_def read_cluster_in)
  apply (simp add: fs_with_file_x_eq append_loop.simps write_cluster_in ffc11 Let_def)
  apply (simp add: store_entry_and_fat_def read_cluster_in write_cluster_in persist_fat_eq)
  apply (simp add: data_x_slot)
  done

lemma persist_fat_fat: "persist_fat s = Inr s' \<Longrightarrow> fat s' = fat s"
  by (auto simp: persist_fat_eq)

lemma store_entry_and_fat_fat: "fat (snd (store_entry_and_fat p upd s)) = fat s"
  by (cases "p < CLUSTER_COUNT")
     (simp_all add: store_entry_and_fat_def read_cluster_in read_cluster_out write_cluster_in
        persist_fat_eq)

text \<open>
  The empty write: when no data cluster is free once the old chain of the file is
  released, \<open>find_free_cluster\<close> returns 0 and the store that follows marks entry 0.
\<close>

lemma fs_write_empty_no_space:
  assumes "find_entry_by_path path s = Inr r" and "found r"
    and "attributes (entry r) = ATTR_ARCHIVE"
    and "free_cluster_chain (fat s) (first_block (entry r)) = Inr t"
    and "find_free_cluster t = 0" and "cstr content = []"
  shows "fat (snd (fs_write path content s)) BOOT_BLOCK_CLUSTER = FAT_ENTRY_EOF"
  using assms by (simp add: fs_write_def Let_def store_entry_and_fat_fat)

text \<open>
  Claim C2: after format, every sequence of operations keeps FAT[0] = 0xFFFD,
  FAT[1..8] = 0xFFFE and FAT[9] = 0xFFFF. The sequence create /f, write "x" /f,
  append (1025 bytes) /f/x leaves FAT[0] = 11: the path /f/x resolves inside the data
  cluster of /f to an entry with first block 0, and the append links the entry of its
  current cluster, 0, to the cluster it allocates.
\<close>

theorem fat_boot_entry_reassigned:
  "fat_entry_after [] BOOT_BLOCK_CLUSTER = Some FAT_ENTRY_BOOT \<and>
   fat_entry_after [Create (bytes_of ''/f''), Write (bytes_of ''/f'') (bytes_of ''x''),
                    Append (bytes_of ''/f/x'') (replicate 1025 0x41)] BOOT_BLOCK_CLUSTER = Some 11"
proof -
  have "run_commands [Create (bytes_of ''/f''), Write (bytes_of ''/f'') (bytes_of ''x'')] formatted_fs
          = Some fs_with_file_x"
    by (simp add: fs_with_file_x_def split: prod.split)
  then have "run_commands [Create (bytes_of ''/f''), Write (bytes_of ''/f'') (bytes_of ''x''),
                    Append (bytes_of ''/f/x'') (replicate 1025 0x41)] formatted_fs
          = Some (snd (the (fs_append (bytes_of ''/f/x'') (replicate 1025 0x41) fs_with_file_x)))"
    by (simp add: fs_append_f_x split: prod.splits)
  then show ?thesis
    by (simp add: fat_entry_after_def init_and_load_eq fs_append_f_x)
       (simp add: formatted_fs_def format_fat_def)
qed

section \<open>The allocator and chains\<close>

lemma suc_word: "i < (4096::16 word) \<Longrightarrow> unat (i + 1) = Suc (unat i)"
  by (simp add: unat_word_ariths word_less_nat_alt)

lemma find_free_cluster_from_props:
  "find_free_cluster_from t i = c \<Longrightarrow>
     (c = 0 \<and> (\<forall>d. i \<le> d \<and> d < CLUSTER_COUNT \<longrightarrow> t d \<noteq> 0) \<or>
      i \<le> c \<and> c < CLUSTER_COUNT \<and> t c = 0 \<and> (\<forall>d. i \<le> d \<and> d < c \<longrightarrow> t d \<noteq> 0))"
  if "0 < i" for i
  using that
proof (induction t i arbitrary: c rule: find_free_cluster_from.induct)
  case (1 t i)
  show ?case
  proof (cases "i < CLUSTER_COUNT")
    case False
    with "1.prems" show ?thesis
      by (auto simp: find_free_cluster_from.simps [of t i])
  next
    case lt: True
    show ?thesis
    proof (cases "t i = 0")
      case True
      with lt "1.prems" show ?thesis
        by (auto simp: find_free_cluster_from.simps [of t i])
    next
      case False
      have u: "unat (i + 1) = Suc (unat i)" by (rule suc_word [OF lt])
      then have p: "0 < i + 1" by (simp add: word_less_nat_alt)
      from False lt "1.prems" have r: "find_free_cluster_from t (i + 1) = c"
        by (simp add: find_free_cluster_from.simps [of t i])
      have step: "\<And>d. i \<le> d \<Longrightarrow> d = i \<or> i + 1 \<le> d"
        using u by (auto simp: word_le_nat_alt word_unat_eq_iff)
      have le: "i \<le> i + 1" using u by (simp add: word_le_nat_alt)
      from "1.IH" [OF lt False r p] show ?thesis
      proof
        assume "c = 0 \<and> (\<forall>d. i + 1 \<le> d \<and> d < CLUSTER_COUNT \<longrightarrow> t d \<noteq> 0)"
        with False step show ?thesis by blast
      next
        assume a: "i + 1 \<le> c \<and> c < CLUSTER_COUNT \<and> t c = 0 \<and> (\<forall>d. i + 1 \<le> d \<and> d < c \<longrightarrow> t d \<noteq> 0)"
        with le have "i \<le> c" by (meson order_trans)
        with a False step show ?thesis by blast
      qed
    qed
  qed
qed

lemma find_free_cluster_cases:
  "(find_free_cluster t = 0 \<and> (\<forall>d. data_cluster d \<longrightarrow> t d \<noteq> 0)) \<or>
   (data_cluster (find_free_cluster t) \<and> t (find_free_cluster t) = 0 \<and>
    (\<forall>d. data_cluster d \<and> d < find_free_cluster t \<longrightarrow> t d \<noteq> 0))"
  using find_free_cluster_from_props [of 10 t "find_free_cluster t"]
  by (auto simp: find_free_cluster_def data_cluster_def)

lemma find_free_cluster_full:
  "(\<And>d. data_cluster d \<Longrightarrow> t d \<noteq> 0) \<Longrightarrow> find_free_cluster t = 0"
  using find_free_cluster_cases [of t] by auto

lemma find_free_cluster_nonzero:
  "find_free_cluster t \<noteq> 0 \<Longrightarrow> data_cluster (find_free_cluster t) \<and> t (find_free_cluster t) = 0"
  using find_free_cluster_cases [of t] by auto

lemma find_free_cluster_least:
  "data_cluster c \<Longrightarrow> t c = 0 \<Longrightarrow> (\<And>d. data_cluster d \<Longrightarrow> d < c \<Longrightarrow> t d \<noteq> 0)
     \<Longrightarrow> find_free_cluster t = c"
  using find_free_cluster_cases [of t]
  by (metis linorder_neqE)

lemma data_cluster_bounds:
  "data_cluster c \<Longrightarrow> c \<noteq> 0 \<and> c < CLUSTER_COUNT \<and> c < FAT_ENTRY_EOF \<and> 9 \<le> c \<and> \<not> (1 \<le> c \<and> c \<le> 8)"
  by (auto simp: data_cluster_def word_le_nat_alt word_less_nat_alt)

lemma is_chain_nonempty: "is_chain t cs \<Longrightarrow> cs \<noteq> []"
  by (cases cs) auto

lemma is_chain_Cons:
  "is_chain t (c # cs) \<longleftrightarrow> data_cluster c \<and> (if cs = [] then t c = FAT_ENTRY_EOF else t c = hd cs \<and> is_chain t cs)"
  by (cases cs) auto

lemma is_chain_all_data: "is_chain t cs \<Longrightarrow> c \<in> set cs \<Longrightarrow> data_cluster c"
  by (induction cs) (auto simp: is_chain_Cons split: if_splits)

lemma is_chain_data: "is_chain t cs \<Longrightarrow> c \<in> set cs \<Longrightarrow> data_cluster c \<and> t c \<noteq> 0"
proof (induction cs)
  case Nil
  then show ?case by simp
next
  case (Cons a cs)
  show ?case
  proof (cases "c = a")
    case True
    show ?thesis
    proof (cases "cs = []")
      case True
      with Cons.prems \<open>c = a\<close> show ?thesis by simp
    next
      case False
      with Cons.prems have "is_chain t cs" "t a = hd cs" by (simp_all add: is_chain_Cons)
      moreover from this False have "data_cluster (hd cs)" by (intro is_chain_all_data [of t cs]) auto
      ultimately show ?thesis
        using Cons.prems \<open>c = a\<close> data_cluster_bounds [of "hd cs"] by (auto simp: is_chain_Cons)
    qed
  next
    case False
    with Cons show ?thesis by (auto simp: is_chain_Cons split: if_splits)
  qed
qed

lemma is_chain_cong:
  "is_chain t cs \<Longrightarrow> (\<And>c. c \<in> set cs \<Longrightarrow> t' c = t c) \<Longrightarrow> is_chain t' cs"
  by (induction t cs rule: is_chain.induct) auto

lemma free_chain_list:
  "is_chain t cs \<Longrightarrow> distinct cs \<Longrightarrow>
   free_cluster_chain t (hd cs) = Inr (\<lambda>c. if c \<in> set cs then 0 else t c)"
proof (induction cs arbitrary: t)
  case Nil
  then show ?case by simp
next
  case (Cons c cs)
  then have dc: "data_cluster c" by (simp add: is_chain_Cons)
  have st: "free_cluster_chain t c = free_cluster_chain (t(c := 0)) (t c)"
    using data_cluster_bounds [OF dc] by (simp add: free_cluster_chain.simps [of t c])
  show ?case
  proof (cases "cs = []")
    case True
    with Cons.prems have "t c = FAT_ENTRY_EOF" by simp
    then have "free_cluster_chain t c = Inr (t(c := 0))"
      using st by (simp add: free_cluster_chain.simps [of "t(c := 0)" FAT_ENTRY_EOF])
    moreover have "t(c := 0) = (\<lambda>x. if x \<in> set (c # cs) then 0 else t x)"
      using True by (auto simp: fun_eq_iff)
    ultimately show ?thesis by simp
  next
    case False
    with Cons.prems have nx: "t c = hd cs" "is_chain t cs" by (simp_all add: is_chain_Cons)
    from Cons.prems have d: "distinct cs" "c \<notin> set cs" by simp_all
    have ch: "is_chain (t(c := 0)) cs"
      by (rule is_chain_cong [OF nx(2)]) (use d(2) in auto)
    have "free_cluster_chain t c = free_cluster_chain (t(c := 0)) (hd cs)"
      using st nx by simp
    also have "\<dots> = Inr (\<lambda>x. if x \<in> set cs then 0 else (t(c := 0)) x)"
      by (rule Cons.IH [OF ch d(1)])
    also have "(\<lambda>x. if x \<in> set cs then 0 else (t(c := 0)) x)
             = (\<lambda>x. if x \<in> set (c # cs) then 0 else t x)"
      by (auto simp: fun_eq_iff)
    finally show ?thesis by simp
  qed
qed

lemma length_cluster_bytes [simp]: "length (cluster_bytes buf) = CLUSTER_SIZE"
  by (simp add: cluster_bytes_def)

lemma nth_cluster_bytes [simp]: "j < CLUSTER_SIZE \<Longrightarrow> cluster_bytes buf ! j = buf j"
  by (simp add: cluster_bytes_def del: upt_Suc)

lemma take_cluster_bytes: "n \<le> CLUSTER_SIZE \<Longrightarrow> take n (cluster_bytes buf) = map buf [0 ..< n]"
  by (simp add: cluster_bytes_def take_map del: upt_Suc)

lemma chain_bytes_Cons:
  "chain_bytes s (c # cs) = cluster_bytes (disk s c) @ chain_bytes s cs"
  by (simp add: chain_bytes_def)

lemma chain_bytes_Nil [simp]: "chain_bytes s [] = []"
  by (simp add: chain_bytes_def)

lemma chain_bytes_append: "chain_bytes s (cs @ ds) = chain_bytes s cs @ chain_bytes s ds"
  by (simp add: chain_bytes_def)

lemma length_chain_bytes [simp]: "length (chain_bytes s cs) = CLUSTER_SIZE * length cs"
  by (induction cs) (simp_all add: chain_bytes_Cons)

lemma take_cluster_append_le:
  "n \<le> CLUSTER_SIZE \<Longrightarrow> take n (cluster_bytes buf @ ys) = take n (cluster_bytes buf)"
  by simp

lemma take_cluster_append_gt:
  "CLUSTER_SIZE \<le> n \<Longrightarrow> take n (cluster_bytes buf @ ys) = cluster_bytes buf @ take (n - CLUSTER_SIZE) ys"
  by simp

lemma read_loop_done: "n = 0 \<or> \<not> c < FAT_ENTRY_EOF \<Longrightarrow> read_loop s n c out = (Inr (), out @ [0x0A])"
  by (auto simp: read_loop.simps [of s n c])

lemma read_loop_step:
  "0 < n \<Longrightarrow> c < CLUSTER_COUNT \<Longrightarrow>
   read_loop s n c out =
     read_loop s (n - min CLUSTER_SIZE n) (fat s c) (out @ take n (cluster_bytes (disk s c)))"
proof -
  assume n: "0 < n" and c: "c < CLUSTER_COUNT"
  then have "c < FAT_ENTRY_EOF" by (simp add: word_less_nat_alt)
  moreover have "take n (cluster_bytes (disk s c))
      = map (disk s c) [0 ..< (if CLUSTER_SIZE < n then CLUSTER_SIZE else n)]"
    by (simp add: cluster_bytes_def take_map min_def del: upt_Suc)
  moreover have "min CLUSTER_SIZE n = (if CLUSTER_SIZE < n then CLUSTER_SIZE else n)" by simp
  ultimately show ?thesis
    using n c by (simp add: read_loop.simps [of s n c] read_cluster_in Let_def del: upt_Suc)
qed

lemma read_chain:
  "is_chain (fat s) cs \<Longrightarrow>
   read_loop s n (hd cs) out = (Inr (), out @ take n (chain_bytes s cs) @ [0x0A])"
proof (induction cs arbitrary: n out)
  case Nil
  then show ?case by simp
next
  case (Cons c cs)
  then have dc: "data_cluster c" by (simp add: is_chain_Cons)
  show ?case
  proof (cases "n = 0")
    case True
    then show ?thesis by (simp add: read_loop_done)
  next
    case False
    then have n: "0 < n" by simp
    have st: "read_loop s n c out =
       read_loop s (n - min CLUSTER_SIZE n) (fat s c) (out @ take n (cluster_bytes (disk s c)))"
      using data_cluster_bounds [OF dc] n by (intro read_loop_step) auto
    show ?thesis
    proof (cases "cs = []")
      case True
      with Cons.prems have "fat s c = FAT_ENTRY_EOF" by simp
      with st True show ?thesis by (simp add: read_loop_done chain_bytes_Cons)
    next
      case ne: False
      with Cons.prems have nx: "fat s c = hd cs" "is_chain (fat s) cs" by (simp_all add: is_chain_Cons)
      have "take n (chain_bytes s (c # cs))
          = take n (cluster_bytes (disk s c)) @ take (n - min CLUSTER_SIZE n) (chain_bytes s cs)"
        by (auto simp: chain_bytes_Cons min_def)
      with st nx Cons.IH [OF nx(2)] show ?thesis by simp
    qed
  qed
qed

section \<open>The allocation loop of fs\_write\<close>

lemma is_chain_last_eof: "is_chain t cs \<Longrightarrow> t (last cs) = FAT_ENTRY_EOF"
  by (induction cs) (auto simp: is_chain_Cons split: if_splits)

lemma is_chain_extend:
  assumes "is_chain t pre" "distinct pre" "n \<notin> set pre" "data_cluster n"
    and T: "T = t(last pre := n, n := FAT_ENTRY_EOF)"
  shows "is_chain T (pre @ [n])"
  using assms(1-3) T
proof (induction pre arbitrary: T)
  case Nil
  then show ?case by simp
next
  case (Cons c pre)
  show ?case
  proof (cases "pre = []")
    case True
    with Cons.prems assms(4) show ?thesis by (auto simp: is_chain_Cons)
  next
    case False
    with Cons.prems have c: "is_chain t pre" "t c = hd pre" "data_cluster c" "c \<notin> set pre" "c \<noteq> n"
      "distinct pre" "n \<notin> set pre"
      by (auto simp: is_chain_Cons)
    have "last (c # pre) = last pre" using False by simp
    with Cons.prems(4) have T': "T = t(last pre := n, n := FAT_ENTRY_EOF)" by (simp only:)
    have ih: "is_chain T (pre @ [n])"
      by (rule Cons.IH [OF c(1) c(6) c(7) T'])
    have "last pre \<in> set pre" using False by simp
    with c have "T c = hd pre" unfolding T' by auto
    with ih c(3) False show ?thesis by (simp add: is_chain_Cons)
  qed
qed

lemma write_buffer_bytes:
  "pos + l \<le> length content \<Longrightarrow> l \<le> CLUSTER_SIZE \<Longrightarrow>
   cluster_bytes (\<lambda>j. if j < l then content ! (pos + j) else 0)
     = take l (drop pos content) @ replicate (CLUSTER_SIZE - l) 0"
  by (rule nth_equalityI) (auto simp: nth_append)

text \<open>One iteration of the allocation loop.\<close>

lemma write_loop_step:
  assumes "pos < len" and "find_free_cluster (fat s) \<noteq> 0"
  shows "write_loop content len pos first cur s =
           write_loop content len (pos + min CLUSTER_SIZE (len - pos))
             (if first = 0 then find_free_cluster (fat s) else first)
             (find_free_cluster (fat s))
             (s\<lparr>fat := (if first = 0 then fat s else (fat s)(cur := find_free_cluster (fat s)))
                          (find_free_cluster (fat s) := FAT_ENTRY_EOF),
                disk := (disk s)(find_free_cluster (fat s) :=
                          (\<lambda>j. if j < min CLUSTER_SIZE (len - pos) then content ! (pos + j) else 0))\<rparr>)"
proof -
  have "find_free_cluster (fat s) < CLUSTER_COUNT"
    using find_free_cluster_nonzero [OF assms(2)] by (simp add: data_cluster_def)
  moreover have "min CLUSTER_SIZE (len - pos) = (if CLUSTER_SIZE < len - pos then CLUSTER_SIZE else len - pos)"
    by simp
  ultimately show ?thesis
    using assms
    by (subst write_loop.simps) (simp add: Let_def write_cluster_in del: min_less_iff_conj)
qed

lemma write_loop_ok:
  assumes "write_loop content len pos first cur s = (Inr f, s')"
    and "len \<le> length content"
    and "(pre = [] \<and> first = 0) \<or> (is_chain (fat s) pre \<and> distinct pre \<and> first = hd pre \<and> cur = last pre)"
  shows "\<exists>new. distinct (pre @ new) \<and> (\<forall>c\<in>set new. data_cluster c \<and> fat s c = 0) \<and>
           (pre @ new \<noteq> [] \<longrightarrow> is_chain (fat s') (pre @ new) \<and> f = hd (pre @ new)) \<and>
           (pre @ new = [] \<longrightarrow> f = 0) \<and>
           (pos < len \<longrightarrow> new \<noteq> []) \<and>
           (\<forall>c. c \<notin> set new \<longrightarrow> disk s' c = disk s c) \<and>
           (\<forall>c. c \<notin> set new \<and> c \<notin> set pre \<longrightarrow> fat s' c = fat s c) \<and>
           take (len - pos) (chain_bytes s' new) = take (len - pos) (drop pos content)"
  using assms
proof (induction "len - pos" arbitrary: pos first cur s pre rule: less_induct)
  case less
  show ?case
  proof (cases "pos < len")
    case False
    with less.prems(1) have "f = first" "s' = s" by (simp_all add: write_loop.simps [of content len pos])
    with less.prems(3) False show ?thesis by (intro exI [of _ "[]"]) auto
  next
    case True
    let ?n = "find_free_cluster (fat s)"
    let ?l = "min CLUSTER_SIZE (len - pos)"
    let ?buf = "(\<lambda>j. if j < ?l then content ! (pos + j) else 0) :: cluster"
    let ?t1 = "(if first = 0 then fat s else (fat s)(cur := ?n))(?n := FAT_ENTRY_EOF)"
    let ?s2 = "s\<lparr>fat := ?t1, disk := (disk s)(?n := ?buf)\<rparr>"
    let ?f1 = "if first = 0 then ?n else first"
    have n0: "?n \<noteq> 0"
    proof
      assume "?n = 0"
      with True less.prems(1) show False
        by (simp add: write_loop.simps [of content len pos] Let_def split: sum.splits)
    qed
    from find_free_cluster_nonzero [OF n0] have dn: "data_cluster ?n" and fn: "fat s ?n = 0" by simp_all
    have rec: "write_loop content len (pos + ?l) ?f1 ?n ?s2 = (Inr f, s')"
      using write_loop_step [OF True n0, of content first cur] less.prems(1) by simp
    have npre: "?n \<notin> set pre"
      using less.prems(3) fn is_chain_data [of "fat s" pre ?n] by auto
    have first0: "first = 0 \<longleftrightarrow> pre = []"
      using less.prems(3) is_chain_data [of "fat s" pre "hd pre"] data_cluster_bounds [of "hd pre"]
        is_chain_nonempty [of "fat s" pre] by auto
    have inv': "is_chain (fat ?s2) (pre @ [?n]) \<and> distinct (pre @ [?n]) \<and> ?f1 = hd (pre @ [?n]) \<and>
                ?n = last (pre @ [?n])"
    proof (cases "pre = []")
      case True
      with first0 dn show ?thesis by simp
    next
      case False
      with less.prems(3) first0 have c: "is_chain (fat s) pre" "distinct pre" "first = hd pre" "cur = last pre"
        by auto
      have "fat ?s2 = (fat s)(last pre := ?n, ?n := FAT_ENTRY_EOF)"
        using c False first0 by simp
      from is_chain_extend [OF c(1,2) npre dn this] c False first0 npre show ?thesis by simp
    qed
    have "len - (pos + ?l) < len - pos" using True by simp
    from less.hyps [OF this rec less.prems(2), of "pre @ [?n]"] inv'
    obtain new where new: "distinct ((pre @ [?n]) @ new)" "\<forall>c\<in>set new. data_cluster c \<and> fat ?s2 c = 0"
      "is_chain (fat s') ((pre @ [?n]) @ new)" "f = hd ((pre @ [?n]) @ new)"
      "\<forall>c. c \<notin> set new \<longrightarrow> disk s' c = disk ?s2 c"
      "\<forall>c. c \<notin> set new \<and> c \<notin> set (pre @ [?n]) \<longrightarrow> fat s' c = fat ?s2 c"
      "take (len - (pos + ?l)) (chain_bytes s' new) = take (len - (pos + ?l)) (drop (pos + ?l) content)"
      by auto
    have free: "\<forall>c\<in>set (?n # new). data_cluster c \<and> fat s c = 0"
    proof
      fix c assume "c \<in> set (?n # new)"
      then consider "c = ?n" | "c \<in> set new" by auto
      then show "data_cluster c \<and> fat s c = 0"
      proof cases
        case 1
        with dn fn show ?thesis by simp
      next
        case 2
        with new(2) have d: "data_cluster c" and z: "fat ?s2 c = 0" by auto
        from z n0 have "fat s c = 0" by (auto split: if_splits)
        with d show ?thesis by simp
      qed
    qed
    have dsk: "\<forall>c. c \<notin> set (?n # new) \<longrightarrow> disk s' c = disk s c"
      using new(5) by auto
    have ft: "\<forall>c. c \<notin> set (?n # new) \<and> c \<notin> set pre \<longrightarrow> fat s' c = fat s c"
    proof (intro allI impI)
      fix c assume c: "c \<notin> set (?n # new) \<and> c \<notin> set pre"
      then have "fat s' c = fat ?s2 c" using new(6) by auto
      moreover have "first \<noteq> 0 \<longrightarrow> c \<noteq> cur"
        using c first0 less.prems(3) by auto
      ultimately show "fat s' c = fat s c" using c by auto
    qed
    have nnew: "?n \<notin> set new" using new(1) by auto
    then have dn': "disk s' ?n = ?buf" using new(5) by simp
    have pl: "pos + ?l \<le> length content" using True less.prems(2) by simp
    have cb: "cluster_bytes ?buf = take ?l (drop pos content) @ replicate (CLUSTER_SIZE - ?l) 0"
      by (rule write_buffer_bytes [OF pl]) simp
    have cbs: "chain_bytes s' (?n # new) = cluster_bytes ?buf @ chain_bytes s' new"
      unfolding chain_bytes_Cons dn' ..
    have bytes: "take (len - pos) (chain_bytes s' (?n # new)) = take (len - pos) (drop pos content)"
    proof (cases "len - pos \<le> CLUSTER_SIZE")
      case le: True
      then have l: "?l = len - pos" by simp
      have "take (len - pos) (chain_bytes s' (?n # new)) = take (len - pos) (cluster_bytes ?buf)"
        unfolding cbs by (rule take_cluster_append_le [OF le])
      also have "\<dots> = take (len - pos) (take (len - pos) (drop pos content) @ replicate (CLUSTER_SIZE - (len - pos)) 0)"
        using cb l by (simp only:)
      also have "\<dots> = take (len - pos) (drop pos content)"
        using pl l by simp
      finally show ?thesis .
    next
      case gt: False
      then have l: "?l = CLUSTER_SIZE" and ge: "CLUSTER_SIZE \<le> len - pos" by simp_all
      have "take (len - pos) (chain_bytes s' (?n # new))
            = cluster_bytes ?buf @ take (len - pos - CLUSTER_SIZE) (chain_bytes s' new)"
        unfolding cbs by (rule take_cluster_append_gt [OF ge])
      also have "cluster_bytes ?buf = take CLUSTER_SIZE (drop pos content)"
        using cb l by (simp only: diff_self_eq_0 replicate_0 append_Nil2)
      also have "take (len - pos - CLUSTER_SIZE) (chain_bytes s' new)
               = take (len - pos - CLUSTER_SIZE) (drop (pos + CLUSTER_SIZE) content)"
        using new(7) l by (simp add: algebra_simps)
      also have "take CLUSTER_SIZE (drop pos content)
                   @ take (len - pos - CLUSTER_SIZE) (drop (pos + CLUSTER_SIZE) content)
               = take (len - pos) (drop pos content)"
      proof -
        have e: "CLUSTER_SIZE + (len - pos - CLUSTER_SIZE) = len - pos" using gt by simp
        have "take (CLUSTER_SIZE + (len - pos - CLUSTER_SIZE)) (drop pos content)
                = take CLUSTER_SIZE (drop pos content)
                    @ take (len - pos - CLUSTER_SIZE) (drop CLUSTER_SIZE (drop pos content))"
          by (rule take_add)
        then show ?thesis unfolding e by (simp add: add.commute)
      qed
      finally show ?thesis .
    qed
    show ?thesis
      using new(1,3,4) free dsk ft bytes
      by (intro exI [of _ "?n # new"]) simp
  qed
qed


lemma write_loop_fail:
  assumes "write_loop content len pos first cur s = (Inl e, s')"
    and "(pre = [] \<and> first = 0) \<or> (is_chain (fat s) pre \<and> distinct pre \<and> first = hd pre \<and> cur = last pre)"
  shows "e = NoSpace \<and> fat s' = (\<lambda>c. if c \<in> set pre then 0 else fat s c) \<and>
         (\<forall>c. disk s' c \<noteq> disk s c \<longrightarrow> data_cluster c \<and> fat s c = 0)"
  using assms
proof (induction "len - pos" arbitrary: pos first cur s pre rule: less_induct)
  case less
  have True: "pos < len"
  proof (rule ccontr)
    assume "\<not> pos < len"
    with less.prems(1) show False by (simp add: write_loop.simps [of content len pos])
  qed
  let ?n = "find_free_cluster (fat s)"
  show ?case
  proof (cases "?n = 0")
    case n0: True
    show ?thesis
    proof (cases "pre = []")
      case True
      with less.prems(2) is_chain_nonempty [of "fat s" pre] have "first = 0" by auto
      with n0 \<open>pos < len\<close> less.prems(1) True show ?thesis
        by (auto simp: write_loop.simps [of content len pos] Let_def free_cluster_chain_0)
    next
      case False
      with less.prems(2) have c: "is_chain (fat s) pre" "distinct pre" "first = hd pre" by auto
      from free_chain_list [OF c(1,2)] c(3) n0 \<open>pos < len\<close> less.prems(1) show ?thesis
        by (auto simp: write_loop.simps [of content len pos] Let_def)
    qed
  next
    case n0: False
    let ?l = "min CLUSTER_SIZE (len - pos)"
    let ?buf = "(\<lambda>j. if j < ?l then content ! (pos + j) else 0) :: cluster"
    let ?t1 = "(if first = 0 then fat s else (fat s)(cur := ?n))(?n := FAT_ENTRY_EOF)"
    let ?s2 = "s\<lparr>fat := ?t1, disk := (disk s)(?n := ?buf)\<rparr>"
    let ?f1 = "if first = 0 then ?n else first"
    from find_free_cluster_nonzero [OF n0] have dn: "data_cluster ?n" and fn: "fat s ?n = 0" by simp_all
    have rec: "write_loop content len (pos + ?l) ?f1 ?n ?s2 = (Inl e, s')"
      using write_loop_step [OF True n0, of content first cur] less.prems(1) by simp
    have npre: "?n \<notin> set pre"
      using less.prems(2) fn is_chain_data [of "fat s" pre ?n] by auto
    have first0: "first = 0 \<longleftrightarrow> pre = []"
      using less.prems(2) is_chain_data [of "fat s" pre "hd pre"] data_cluster_bounds [of "hd pre"]
        is_chain_nonempty [of "fat s" pre] by auto
    have inv': "is_chain (fat ?s2) (pre @ [?n]) \<and> distinct (pre @ [?n]) \<and> ?f1 = hd (pre @ [?n]) \<and>
                ?n = last (pre @ [?n])"
    proof (cases "pre = []")
      case True
      with first0 dn show ?thesis by simp
    next
      case False
      with less.prems(2) first0 have c: "is_chain (fat s) pre" "distinct pre" "first = hd pre" "cur = last pre"
        by auto
      have "fat ?s2 = (fat s)(last pre := ?n, ?n := FAT_ENTRY_EOF)"
        using c False first0 by simp
      from is_chain_extend [OF c(1,2) npre dn this] c False first0 npre show ?thesis by simp
    qed
    have "len - (pos + ?l) < len - pos" using True by simp
    from less.hyps [OF this rec, of "pre @ [?n]"] inv'
    have ih: "e = NoSpace" "fat s' = (\<lambda>c. if c \<in> set (pre @ [?n]) then 0 else fat ?s2 c)"
      "\<forall>c. disk s' c \<noteq> disk ?s2 c \<longrightarrow> data_cluster c \<and> fat ?s2 c = 0"
      by auto
    have curpre: "pre \<noteq> [] \<Longrightarrow> cur \<in> set pre"
      using less.prems(2) by auto
    have "fat s' = (\<lambda>c. if c \<in> set pre then 0 else fat s c)"
    proof (rule ext)
      fix c
      show "fat s' c = (if c \<in> set pre then 0 else fat s c)"
        unfolding ih(2) using first0 curpre fn by auto
    qed
    moreover have "\<forall>c. disk s' c \<noteq> disk s c \<longrightarrow> data_cluster c \<and> fat s c = 0"
    proof (intro allI impI)
      fix c assume d: "disk s' c \<noteq> disk s c"
      show "data_cluster c \<and> fat s c = 0"
      proof (cases "c = ?n")
        case True
        with dn fn show ?thesis by simp
      next
        case False
        with d have "disk s' c \<noteq> disk ?s2 c" by simp
        with ih(3) have "data_cluster c" "fat ?s2 c = 0" by auto
        moreover from this(2) n0 have "fat s c = 0" by (auto split: if_splits)
        ultimately show ?thesis by simp
      qed
    qed
    ultimately show ?thesis using ih(1) by simp
  qed
qed

section \<open>The rollback of fs\_write\<close>

lemma data_cluster_lt_11: "data_cluster d \<Longrightarrow> d < 11 \<Longrightarrow> d = 10"
  by (auto simp: data_cluster_def word_le_nat_alt word_less_nat_alt word_unat_eq_iff)

lemma data_cluster_lt_12: "data_cluster d \<Longrightarrow> d < 12 \<Longrightarrow> d = 10 \<or> d = 11"
  by (auto simp: data_cluster_def word_le_nat_alt word_less_nat_alt word_unat_eq_iff)

lemma full_fat_data: "data_cluster d \<Longrightarrow> full_fat d = FAT_ENTRY_EOF"
  using data_cluster_bounds [of d] by (auto simp: full_fat_def)

lemma find_free_full_fat_11: "find_free_cluster (full_fat(12 := 0, 11 := 0)) = 11"
  by (rule find_free_cluster_least) (auto simp: data_cluster_def full_fat_data dest!: data_cluster_lt_11)

lemma find_free_full_fat_12: "find_free_cluster (full_fat(12 := 0, 11 := FAT_ENTRY_EOF)) = 12"
  by (rule find_free_cluster_least) (auto simp: data_cluster_def full_fat_data dest!: data_cluster_lt_12)

lemma find_free_full_fat_none:
  "c \<noteq> 0 \<Longrightarrow> find_free_cluster (full_fat(12 := FAT_ENTRY_EOF, 11 := c)) = 0"
  "c \<noteq> 0 \<Longrightarrow> find_free_cluster (full_fat(11 := c, 12 := FAT_ENTRY_EOF)) = 0"
  "find_free_cluster (full_fat(10 := FAT_ENTRY_EOF)) = 0"
  by (rule find_free_cluster_full, auto simp: full_fat_data)+

lemma find_free_full_fat_10: "find_free_cluster (full_fat(10 := 0)) = 10"
  by (rule find_free_cluster_least) (auto simp: data_cluster_def word_less_nat_alt word_le_nat_alt)

lemma free_cluster_chain_error: "free_cluster_chain t c = Inl e \<Longrightarrow> e = Undefined"
  by (induction t c rule: free_cluster_chain.induct)
     (subst (asm) free_cluster_chain.simps, auto split: if_splits)

lemma free_cluster_chain_subset:
  "free_cluster_chain t c = Inr t' \<Longrightarrow> t' d \<noteq> 0 \<Longrightarrow> t d \<noteq> 0"
  using free_cluster_chain_result [of t c t'] by (auto split: if_splits)

lemma store_entry_and_fat_status: "fst (store_entry_and_fat p upd s) \<noteq> Inl NoSpace"
  by (cases "p < CLUSTER_COUNT")
     (simp_all add: store_entry_and_fat_def read_cluster_in read_cluster_out write_cluster_in
        persist_fat_eq)

lemma fs_write_no_space:
  assumes "fs_write path content s = (Inl NoSpace, s')"
    and "find_entry_by_path path s = Inr r"
  shows "free_cluster_chain (fat s) (first_block (entry r)) = Inr (fat s') \<and>
         (\<forall>c. disk s' c \<noteq> disk s c \<longrightarrow> data_cluster c \<and> fat s' c = 0)"
proof -
  from assms have fr: "found r" "attributes (entry r) = ATTR_ARCHIVE"
    by (auto simp: fs_write_def split: if_splits)
  obtain t where t: "free_cluster_chain (fat s) (first_block (entry r)) = Inr t"
    using assms fr free_cluster_chain_error [of "fat s" "first_block (entry r)"]
    by (cases "free_cluster_chain (fat s) (first_block (entry r))") (auto simp: fs_write_def)
  let ?len = "length (cstr content) mod 2 ^ 32"
  have pos: "0 < ?len"
  proof (rule ccontr)
    assume "\<not> 0 < ?len"
    with assms fr t store_entry_and_fat_status show False
      by (auto simp: fs_write_def Let_def split: prod.splits sum.splits) (metis fst_conv)
  qed
  obtain res s2 where w: "write_loop (cstr content) ?len 0 0 0 (s\<lparr>fat := t\<rparr>) = (res, s2)"
    by (cases "write_loop (cstr content) ?len 0 0 0 (s\<lparr>fat := t\<rparr>)")
  have "res = Inl NoSpace \<and> s2 = s'"
  proof (cases res)
    case (Inl e)
    with assms fr t pos w show ?thesis by (simp add: fs_write_def Let_def)
  next
    case (Inr f)
    with assms fr t pos w store_entry_and_fat_status show ?thesis
      by (auto simp: fs_write_def Let_def) (metis fst_conv)
  qed
  with w have "write_loop (cstr content) ?len 0 0 0 (s\<lparr>fat := t\<rparr>) = (Inl NoSpace, s')" by simp
  from write_loop_fail [OF this, of "[]"] t show ?thesis by simp
qed

lemma state_fd:
  "disk fs_free_dir 9 = root_d" "disk fs_free_dir 12 = dir_g" "fat fs_free_dir = full_fat(12 := 0)"
  "disk fs_full_h 9 = root_h" "fat fs_full_h = full_fat"
  by (simp_all add: fs_free_dir_def fs_full_h_def)

lemma slots_fd:
  "find_token_slot root_d (bytes_of ''d'') 0 = Inr (Some 0)"
  "find_token_slot root_h (bytes_of ''h'') 0 = Inr (Some 0)"
  "find_token_slot dir_g (bytes_of ''g'') 0 = Inr (Some 0)"
  "first_block (dir_entry_at root_d 0) = 12"
  "first_block (dir_entry_at root_h 0) = 10"
  "attributes (dir_entry_at root_h 0) = 0"
  "esize (dir_entry_at root_h 0) = 0"
  "first_block (dir_entry_at dir_g 0) = 11"
  "attributes (dir_entry_at dir_g 0) = 0"
  "esize (dir_entry_at dir_g 0) = 0"
  by (simp_all add: root_d_def root_h_def dir_g_def eval_path eval_find eval_buf)

lemma find_d_g:
  "find_entry_by_path (bytes_of ''/d/g'') fs_free_dir =
     Inr (zero_result\<lparr>name := strncpy 17 (bytes_of ''g'') @ [0], found := True,
                       parent_cluster := 12, entry_cluster := 11, entry_index := 0,
                       entry := dir_entry_at dir_g 0\<rparr>)"
proof -
  have t: "strtok_all (take 511 (cstr (bytes_of ''/d/g''))) = [bytes_of ''d'', bytes_of ''g'']"
    by (simp add: eval_path)
  have p: "take 511 (cstr (bytes_of ''/d/g'')) \<noteq> [SLASH]"
    by (simp add: eval_path)
  show ?thesis
    unfolding find_entry_by_path_def Let_def t using p
    by (simp add: walk.simps read_cluster_in state_fd slots_fd Let_def)
qed

lemma find_h:
  "find_entry_by_path (bytes_of ''/h'') fs_full_h =
     Inr (zero_result\<lparr>name := strncpy 17 (bytes_of ''h'') @ [0], found := True,
                       parent_cluster := 9, entry_cluster := 10, entry_index := 0,
                       entry := dir_entry_at root_h 0\<rparr>)"
proof -
  have t: "strtok_all (take 511 (cstr (bytes_of ''/h''))) = [bytes_of ''h'']"
    by (simp add: eval_path)
  have p: "take 511 (cstr (bytes_of ''/h'')) \<noteq> [SLASH]"
    by (simp add: eval_path)
  show ?thesis
    unfolding find_entry_by_path_def Let_def t using p
    by (simp add: walk.simps read_cluster_in state_fd slots_fd Let_def)
qed

lemma free_chain_full_fat:
  "free_cluster_chain (full_fat(12 := 0)) 11 = Inr (full_fat(12 := 0, 11 := 0))"
  "free_cluster_chain full_fat 10 = Inr (full_fat(10 := 0))"
  "free_cluster_chain (full_fat(11 := 12, 12 := FAT_ENTRY_EOF)) 11 = Inr (full_fat(11 := 0, 12 := 0))"
  "free_cluster_chain (full_fat(10 := FAT_ENTRY_EOF)) 10 = Inr (full_fat(10 := 0))"
  by (simp_all add: free_cluster_chain.simps full_fat_def fun_upd_twist)


lemma fs_write_d_g:
  "fs_write (bytes_of ''/d/g'') (replicate 2049 0x41) fs_free_dir =
     (Inl NoSpace,
      fs_free_dir
        \<lparr>fat := full_fat(11 := 0, 12 := 0),
         disk := (disk fs_free_dir)
                   (11 := \<lambda>j. if j < 1024 then replicate 2049 65 ! (0 + j) else 0,
                    12 := \<lambda>j. if j < 1024 then replicate 2049 65 ! (1024 + j) else 0)\<rparr>)"
  apply (simp add: fs_write_def find_d_g slots_fd state_fd free_chain_full_fat cstr_def)
  apply (simp add: write_loop.simps [of _ _ 0] find_free_full_fat_11 write_cluster_in Let_def)
  apply (simp add: write_loop.simps [of _ _ 1024] find_free_full_fat_12 write_cluster_in Let_def)
  apply (simp add: write_loop.simps [of _ _ 2048] find_free_full_fat_none free_chain_full_fat Let_def)
  done

lemma fs_write_h:
  "fs_write (bytes_of ''/h'') (replicate 1025 0x41) fs_full_h =
     (Inl NoSpace,
      fs_full_h
        \<lparr>disk := (disk fs_full_h)
                   (10 := \<lambda>j. if j < 1024 then replicate 1025 65 ! (0 + j) else 0),
         fat := full_fat(10 := 0)\<rparr>)"
  apply (simp add: fs_write_def find_h slots_fd state_fd free_chain_full_fat cstr_def)
  apply (simp add: write_loop.simps [of _ _ 0] find_free_full_fat_10 write_cluster_in Let_def)
  apply (simp add: write_loop.simps [of _ _ 1024] find_free_full_fat_none free_chain_full_fat Let_def)
  done

text \<open>
  Claim C3, as the specification states it: a write that fails with no space leaves the
  directory entry of the file unchanged on disk. In a file system where the cluster of
  the parent directory \<open>/d\<close>, 12, is free in the FAT, a write of 2049 bytes to \<open>/d/g\<close>
  takes clusters 11 and 12 for its first two slices, finds no third cluster and rolls
  back; the second slice has overwritten cluster 12, and the first block recorded in
  slot 0 of that cluster has changed from 11 to 0x4141.
\<close>

theorem fs_write_no_space_counterexample:
  "fst (fs_write (bytes_of ''/d/g'') (replicate 2049 0x41) fs_free_dir) = Inl NoSpace \<and>
   find_entry_by_path (bytes_of ''/d/g'') fs_free_dir =
     Inr (zero_result\<lparr>name := strncpy 17 (bytes_of ''g'') @ [0], found := True,
                       parent_cluster := 12, entry_cluster := 11, entry_index := 0,
                       entry := dir_entry_at (disk fs_free_dir 12) 0\<rparr>) \<and>
   first_block (dir_entry_at (disk fs_free_dir 12) 0) = 11 \<and>
   first_block (dir_entry_at
      (disk (snd (fs_write (bytes_of ''/d/g'') (replicate 2049 0x41) fs_free_dir)) 12) 0) = 0x4141"
  by (simp add: fs_write_d_g find_d_g state_fd slots_fd)
     (simp add: dir_entry_at_def le16_def)

text \<open>
  Claim C3, amended: when a write fails with no space, the FAT mirror is the one
  obtained by releasing the old chain of the file, so that every cluster the failing
  call allocated is free again and no entry that was free is in use; the call has
  written only clusters of the data area that are free in the resulting mirror, so
  that the directory entry of the file on disk is unchanged whenever the cluster of
  its parent directory is not such a cluster.
\<close>

theorem fs_write_no_space_rollback:
  assumes "fs_write path content s = (Inl NoSpace, s')"
    and "find_entry_by_path path s = Inr r"
  shows "free_cluster_chain (fat s) (first_block (entry r)) = Inr (fat s') \<and>
         (\<forall>c. fat s' c \<noteq> 0 \<longrightarrow> fat s c \<noteq> 0) \<and>
         (\<forall>c. disk s' c \<noteq> disk s c \<longrightarrow> data_cluster c \<and> fat s' c = 0) \<and>
         (\<not> data_cluster (parent_cluster r) \<or> fat s' (parent_cluster r) \<noteq> 0 \<longrightarrow>
            dir_entry_at (disk s' (parent_cluster r)) (entry_index r)
              = dir_entry_at (disk s (parent_cluster r)) (entry_index r))"
proof -
  from fs_write_no_space [OF assms]
  have f: "free_cluster_chain (fat s) (first_block (entry r)) = Inr (fat s')"
    and d: "\<forall>c. disk s' c \<noteq> disk s c \<longrightarrow> data_cluster c \<and> fat s' c = 0"
    by simp_all
  from d have "\<not> data_cluster (parent_cluster r) \<or> fat s' (parent_cluster r) \<noteq> 0 \<longrightarrow>
                 disk s' (parent_cluster r) = disk s (parent_cluster r)"
    by blast
  with f d free_cluster_chain_subset [OF f] show ?thesis by auto
qed

theorem fs_write_no_space_rollback_witness:
  "fs_write (bytes_of ''/h'') (replicate 1025 0x41) fs_full_h
     = (Inl NoSpace,
        fs_full_h\<lparr>disk := (disk fs_full_h)
                            (10 := \<lambda>j. if j < 1024 then replicate 1025 65 ! (0 + j) else 0),
                  fat := full_fat(10 := 0)\<rparr>) \<and>
   free_cluster_chain (fat fs_full_h) 10 = Inr (full_fat(10 := 0)) \<and>
   \<not> data_cluster 9 \<and>
   dir_entry_at (disk (snd (fs_write (bytes_of ''/h'') (replicate 1025 0x41) fs_full_h)) 9) 0
     = dir_entry_at (disk fs_full_h 9) 0"
proof -
  have nd: "\<not> data_cluster 9" by (simp add: data_cluster_def)
  from fs_write_no_space_rollback [OF fs_write_h find_h] nd
  show ?thesis by (simp add: fs_write_h slots_fd)
qed

section \<open>Resolution of a path after an update of its entry\<close>

text \<open>Name matching reads a buffer from a slot start up to the first NUL byte.\<close>

lemma strcmp_eq_cong_upto:
  assumes "\<And>p. off \<le> p \<Longrightarrow> p \<le> z \<Longrightarrow> buf' p = buf p" and "off \<le> z" and "buf z = 0"
  shows "strcmp_eq buf' off tok = strcmp_eq buf off tok"
  using assms
proof (induction tok arbitrary: off)
  case Nil
  then show ?case by simp
next
  case (Cons c cs)
  have e: "buf' off = buf off" using Cons.prems by simp
  show ?case
  proof (cases "off < CLUSTER_SIZE \<and> buf off = c \<and> c \<noteq> 0")
    case True
    then have "off \<noteq> z" using Cons.prems(3) by auto
    with Cons.prems(2) have "Suc off \<le> z" by simp
    with Cons.prems have "strcmp_eq buf' (Suc off) cs = strcmp_eq buf (Suc off) cs"
      by (intro Cons.IH) auto
    with True e show ?thesis by simp
  next
    case False
    with e show ?thesis by auto
  qed
qed

lemma strcmp_eq_cong_from:
  assumes "\<And>p. off \<le> p \<Longrightarrow> buf' p = buf p"
  shows "strcmp_eq buf' off tok = strcmp_eq buf off tok"
  using assms
proof (induction tok arbitrary: off)
  case Nil
  then show ?case by simp
next
  case (Cons c cs)
  have "strcmp_eq buf' (Suc off) cs = strcmp_eq buf (Suc off) cs"
    using Cons.prems by (intro Cons.IH) auto
  with Cons.prems [of off] show ?case by simp
qed

text \<open>
  A change of the bytes 26..31 of a slot whose attribute byte is 0 is invisible to the
  scan of the directory.
\<close>

lemma slot_match_unchanged:
  assumes same: "\<And>p. \<not> (32 * i + 26 \<le> p \<and> p < 32 * i + 32) \<Longrightarrow> buf' p = buf p"
    and attr: "buf (32 * i + 18) = 0"
  shows "buf' (32 * k) = buf (32 * k)" and "strcmp_eq buf' (32 * k) tok = strcmp_eq buf (32 * k) tok"
proof -
  have "\<not> (32 * i + 26 \<le> 32 * k \<and> 32 * k < 32 * i + 32)" by presburger
  then show "buf' (32 * k) = buf (32 * k)" by (rule same)
  show "strcmp_eq buf' (32 * k) tok = strcmp_eq buf (32 * k) tok"
  proof (cases "k \<le> i")
    case True
    show ?thesis
    proof (rule strcmp_eq_cong_upto [where z = "32 * i + 18"])
      fix p assume "32 * k \<le> p" "p \<le> 32 * i + 18"
      then show "buf' p = buf p" by (intro same) simp
    next
      show "32 * k \<le> 32 * i + 18" using True by simp
    next
      show "buf (32 * i + 18) = 0" by (rule attr)
    qed
  next
    case False
    show ?thesis
    proof (rule strcmp_eq_cong_from)
      fix p assume "32 * k \<le> p"
      with False have "\<not> (32 * i + 26 \<le> p \<and> p < 32 * i + 32)" by simp
      then show "buf' p = buf p" by (rule same)
    qed
  qed
qed

lemma find_token_slot_unchanged:
  assumes same: "\<And>p. \<not> (32 * i + 26 \<le> p \<and> p < 32 * i + 32) \<Longrightarrow> buf' p = buf p"
    and attr: "buf (32 * i + 18) = 0"
  shows "find_token_slot buf' tok k = find_token_slot buf tok k"
proof (induction "32 - k" arbitrary: k rule: less_induct)
  case less
  show ?case
  proof (cases "k < 32")
    case False
    then show ?thesis
      by (simp add: find_token_slot.simps [of buf' tok k] find_token_slot.simps [of buf tok k])
  next
    case True
    then have "32 - (k + 1) < 32 - k" by simp
    from less.hyps [OF this]
    have ih: "find_token_slot buf' tok (k + 1) = find_token_slot buf tok (k + 1)" .
    have "buf' (32 * k) = buf (32 * k)" "strcmp_eq buf' (32 * k) tok = strcmp_eq buf (32 * k) tok"
      using slot_match_unchanged(1) [where i = i and buf' = buf' and buf = buf and k = k]
        slot_match_unchanged(2) [where i = i and buf' = buf' and buf = buf and k = k and tok = tok]
        same attr by blast+
    with ih show ?thesis
      by (simp add: find_token_slot.simps [of buf' tok k] find_token_slot.simps [of buf tok k]
            split: option.splits bool.splits)
  qed
qed

text \<open>The entry that fs\_write and fs\_append store back.\<close>

lemma put_le16_other: "p \<noteq> off \<Longrightarrow> p \<noteq> off + 1 \<Longrightarrow> put_le16 off w buf p = buf p"
  by (simp add: put_le16_def)

lemma put_le32_other:
  "p \<noteq> off \<Longrightarrow> p \<noteq> off + 1 \<Longrightarrow> p \<noteq> off + 2 \<Longrightarrow> p \<noteq> off + 3 \<Longrightarrow> put_le32 off w buf p = buf p"
  by (simp add: put_le32_def)

lemma le16_cong: "buf' off = buf off \<Longrightarrow> buf' (off + 1) = buf (off + 1) \<Longrightarrow> le16 buf' off = le16 buf off"
  by (simp add: le16_def)

lemma le32_cong:
  "buf' off = buf off \<Longrightarrow> buf' (off + 1) = buf (off + 1) \<Longrightarrow> buf' (off + 2) = buf (off + 2)
    \<Longrightarrow> buf' (off + 3) = buf (off + 3) \<Longrightarrow> le32 buf' off = le32 buf off"
  by (simp add: le32_def)

lemma entry_update_frame:
  assumes "\<not> (32 * i + 26 \<le> p \<and> p < 32 * i + 32)"
  shows "put_le32 (32 * i + 28) w (put_le16 (32 * i + 26) f buf) p = buf p"
proof -
  from assms have "p \<noteq> 32 * i + 26" "p \<noteq> 32 * i + 27" "p \<noteq> 32 * i + 28" "p \<noteq> 32 * i + 29"
    "p \<noteq> 32 * i + 30" "p \<noteq> 32 * i + 31" by presburger+
  then show ?thesis by (simp add: put_le32_def put_le16_def)
qed

lemma size_update_frame:
  assumes "\<not> (32 * i + 26 \<le> p \<and> p < 32 * i + 32)"
  shows "put_le32 (32 * i + 28) w buf p = buf p"
proof -
  from assms have "p \<noteq> 32 * i + 28" "p \<noteq> 32 * i + 29" "p \<noteq> 32 * i + 30" "p \<noteq> 32 * i + 31"
    by presburger+
  then show ?thesis by (simp add: put_le32_def)
qed

lemma entry_update_fields:
  "first_block (dir_entry_at (put_le32 (32 * i + 28) w (put_le16 (32 * i + 26) f buf)) i) = f"
  "esize (dir_entry_at (put_le32 (32 * i + 28) w (put_le16 (32 * i + 26) f buf)) i) = w"
  "attributes (dir_entry_at (put_le32 (32 * i + 28) w (put_le16 (32 * i + 26) f buf)) i)
     = attributes (dir_entry_at buf i)"
proof -
  have "le16 (put_le32 (32 * i + 28) w (put_le16 (32 * i + 26) f buf)) (32 * i + 26)
          = le16 (put_le16 (32 * i + 26) f buf) (32 * i + 26)"
    by (rule le16_cong) (simp_all add: put_le32_other)
  then show "first_block (dir_entry_at (put_le32 (32 * i + 28) w (put_le16 (32 * i + 26) f buf)) i) = f"
    by (simp add: dir_entry_at_def le16_put_le16)
  show "esize (dir_entry_at (put_le32 (32 * i + 28) w (put_le16 (32 * i + 26) f buf)) i) = w"
    by (simp add: dir_entry_at_def le32_put_le32)
  show "attributes (dir_entry_at (put_le32 (32 * i + 28) w (put_le16 (32 * i + 26) f buf)) i)
     = attributes (dir_entry_at buf i)"
    by (simp add: dir_entry_at_def put_le32_other put_le16_other)
qed

lemma size_update_fields:
  "first_block (dir_entry_at (put_le32 (32 * i + 28) w buf) i) = first_block (dir_entry_at buf i)"
  "esize (dir_entry_at (put_le32 (32 * i + 28) w buf) i) = w"
  "attributes (dir_entry_at (put_le32 (32 * i + 28) w buf) i) = attributes (dir_entry_at buf i)"
proof -
  have "le16 (put_le32 (32 * i + 28) w buf) (32 * i + 26) = le16 buf (32 * i + 26)"
    by (rule le16_cong) (simp_all add: put_le32_other)
  then show "first_block (dir_entry_at (put_le32 (32 * i + 28) w buf) i) = first_block (dir_entry_at buf i)"
    by (simp add: dir_entry_at_def)
  show "esize (dir_entry_at (put_le32 (32 * i + 28) w buf) i) = w"
    by (simp add: dir_entry_at_def le32_put_le32)
  show "attributes (dir_entry_at (put_le32 (32 * i + 28) w buf) i) = attributes (dir_entry_at buf i)"
    by (simp add: dir_entry_at_def put_le32_other)
qed

lemma walk_Cons_found:
  assumes "walk s (t # rest) cur r0 = Inr (r, c)" and "found r"
  shows "\<exists>i. cur < CLUSTER_COUNT \<and> find_token_slot (disk s cur) t 0 = Inr (Some i) \<and>
             walk s rest (first_block (dir_entry_at (disk s cur) i))
               (r0\<lparr>name := strncpy 17 t @ [0], parent_cluster := cur,
                    entry_cluster := first_block (dir_entry_at (disk s cur) i),
                    entry_index := i, entry := dir_entry_at (disk s cur) i\<rparr>) = Inr (r, c)"
proof -
  have cur: "cur < CLUSTER_COUNT"
    using assms(1) by (cases "cur < CLUSTER_COUNT") (auto simp: walk.simps read_cluster_out Let_def)
  show ?thesis
  proof (cases "find_token_slot (disk s cur) t 0")
    case (Inl e)
    with assms cur show ?thesis by (simp add: walk.simps read_cluster_in Let_def)
  next
    case (Inr m)
    with assms cur show ?thesis
      by (cases m) (auto simp: walk.simps read_cluster_in Let_def)
  qed
qed

lemma walk_Cons_match:
  assumes "cur < CLUSTER_COUNT" and "find_token_slot (disk s cur) t 0 = Inr (Some i)"
  shows "walk s (t # rest) cur r0 =
           walk s rest (first_block (dir_entry_at (disk s cur) i))
               (r0\<lparr>name := strncpy 17 t @ [0], parent_cluster := cur,
                    entry_cluster := first_block (dir_entry_at (disk s cur) i),
                    entry_index := i, entry := dir_entry_at (disk s cur) i\<rparr>)"
  using assms by (simp add: walk.simps read_cluster_in Let_def)

lemma walk_found_last:
  assumes "walk s toks cur r0 = Inr (r, c)" and "found r" and "toks \<noteq> []"
  shows "walk_clusters s toks cur \<noteq> [] \<and> last (walk_clusters s toks cur) = parent_cluster r \<and>
         hd (walk_clusters s toks cur) = cur \<and>
         parent_cluster r < CLUSTER_COUNT \<and>
         find_token_slot (disk s (parent_cluster r)) (last toks) 0 = Inr (Some (entry_index r)) \<and>
         entry r = dir_entry_at (disk s (parent_cluster r)) (entry_index r) \<and>
         entry_cluster r = first_block (entry r) \<and> c = first_block (entry r) \<and>
         name r = strncpy 17 (last toks) @ [0]"
  using assms
proof (induction toks arbitrary: cur r0)
  case Nil
  then show ?case by simp
next
  case (Cons t rest)
  from walk_Cons_found [OF Cons.prems(1,2)] obtain i where i: "cur < CLUSTER_COUNT"
    "find_token_slot (disk s cur) t 0 = Inr (Some i)"
    "walk s rest (first_block (dir_entry_at (disk s cur) i))
               (r0\<lparr>name := strncpy 17 t @ [0], parent_cluster := cur,
                    entry_cluster := first_block (dir_entry_at (disk s cur) i),
                    entry_index := i, entry := dir_entry_at (disk s cur) i\<rparr>) = Inr (r, c)"
    by blast
  show ?case
  proof (cases "rest = []")
    case True
    with i show ?thesis by (auto simp: walk.simps)
  next
    case False
    from Cons.IH [OF i(3) Cons.prems(2) False] i(2) False show ?thesis by simp
  qed
qed

lemma walk_parent_updated:
  assumes "walk s toks cur r0 = Inr (r, c)" and "found r" and "toks \<noteq> []"
    and "distinct (walk_clusters s toks cur)"
    and "\<And>d. d \<in> set (walk_clusters s toks cur) \<Longrightarrow> d \<noteq> parent_cluster r \<Longrightarrow> disk s' d = disk s d"
    and "\<And>p. \<not> (32 * entry_index r + 26 \<le> p \<and> p < 32 * entry_index r + 32)
            \<Longrightarrow> disk s' (parent_cluster r) p = disk s (parent_cluster r) p"
    and "attributes (entry r) = ATTR_ARCHIVE"
  shows "walk s' toks cur r0 =
           Inr (r\<lparr>entry := dir_entry_at (disk s' (parent_cluster r)) (entry_index r),
                  entry_cluster := first_block (dir_entry_at (disk s' (parent_cluster r)) (entry_index r))\<rparr>,
                first_block (dir_entry_at (disk s' (parent_cluster r)) (entry_index r)))"
  using assms(1-5)
proof (induction toks arbitrary: cur r0)
  case Nil
  then show ?case by simp
next
  case (Cons t rest)
  from walk_Cons_found [OF Cons.prems(1,2)] obtain i where i: "cur < CLUSTER_COUNT"
    "find_token_slot (disk s cur) t 0 = Inr (Some i)"
    "walk s rest (first_block (dir_entry_at (disk s cur) i))
               (r0\<lparr>name := strncpy 17 t @ [0], parent_cluster := cur,
                    entry_cluster := first_block (dir_entry_at (disk s cur) i),
                    entry_index := i, entry := dir_entry_at (disk s cur) i\<rparr>) = Inr (r, c)"
    by blast
  show ?case
  proof (cases "rest = []")
    case True
    with i(3) have r: "r = r0\<lparr>name := strncpy 17 t @ [0], parent_cluster := cur,
                    entry_cluster := first_block (dir_entry_at (disk s cur) i),
                    entry_index := i, entry := dir_entry_at (disk s cur) i, found := True\<rparr>"
      by (auto simp: walk.simps)
    then have pc: "parent_cluster r = cur" "entry_index r = i" by simp_all
    have at: "disk s cur (32 * i + 18) = 0"
      using assms(7) r by (simp add: dir_entry_at_def)
    have "find_token_slot (disk s' cur) t 0 = find_token_slot (disk s cur) t 0"
      using assms(6) pc at by (intro find_token_slot_unchanged [where i = i]) auto
    with i(2) have "find_token_slot (disk s' cur) t 0 = Inr (Some i)" by simp
    from walk_Cons_match [OF i(1) this, of rest r0] True r show ?thesis
      by (simp add: walk.simps)
  next
    case False
    from walk_found_last [OF i(3) Cons.prems(2) False]
    have "parent_cluster r \<in> set (walk_clusters s rest (first_block (dir_entry_at (disk s cur) i)))"
      by (metis last_in_set)
    with Cons.prems(4) i(2) have "parent_cluster r \<noteq> cur" by auto
    with Cons.prems(5) [of cur] have same: "disk s' cur = disk s cur" by simp
    have "walk s' rest (first_block (dir_entry_at (disk s cur) i))
               (r0\<lparr>name := strncpy 17 t @ [0], parent_cluster := cur,
                    entry_cluster := first_block (dir_entry_at (disk s cur) i),
                    entry_index := i, entry := dir_entry_at (disk s cur) i\<rparr>)
          = Inr (r\<lparr>entry := dir_entry_at (disk s' (parent_cluster r)) (entry_index r),
                  entry_cluster := first_block (dir_entry_at (disk s' (parent_cluster r)) (entry_index r))\<rparr>,
                first_block (dir_entry_at (disk s' (parent_cluster r)) (entry_index r)))"
      using Cons.prems(4,5) i(2) by (intro Cons.IH [OF i(3) Cons.prems(2) False]) auto
    moreover have "walk s' (t # rest) cur r0 =
           walk s' rest (first_block (dir_entry_at (disk s' cur) i))
               (r0\<lparr>name := strncpy 17 t @ [0], parent_cluster := cur,
                    entry_cluster := first_block (dir_entry_at (disk s' cur) i),
                    entry_index := i, entry := dir_entry_at (disk s' cur) i\<rparr>)"
      using i(1,2) same by (intro walk_Cons_match) simp_all
    ultimately show ?thesis using same by simp
  qed
qed

section \<open>The result of a failing resolution\<close>

lemma strtok_all_slash: "strtok_all [SLASH] = []"
  by (simp add: strtok_all.simps)

lemma walk_append:
  assumes "walk s pre cur r0 = Inr (r1, c)" and "found r1"
  shows "walk s (pre @ rest) cur r0 = walk s rest c (r1\<lparr>found := found r0\<rparr>)"
  using assms
proof (induction pre arbitrary: cur r0)
  case Nil
  then show ?case by (auto simp: walk.simps)
next
  case (Cons token pre)
  from Cons.prems(1) have cur: "cur < CLUSTER_COUNT"
    by (cases "cur < CLUSTER_COUNT") (auto simp: read_cluster_out Let_def walk.simps)
  show ?case
  proof (cases "find_token_slot (disk s cur) token 0")
    case (Inl e)
    with Cons.prems cur show ?thesis by (simp add: read_cluster_in Let_def walk.simps)
  next
    case (Inr m)
    show ?thesis
    proof (cases m)
      case None
      with Inr Cons.prems cur show ?thesis
        by (auto simp: read_cluster_in Let_def walk.simps)
    next
      case (Some i)
      let ?e = "dir_entry_at (disk s cur) i"
      let ?r1 = "r0\<lparr>name := strncpy 17 token @ [0], parent_cluster := cur,
                     entry_cluster := first_block ?e, entry_index := i, entry := ?e\<rparr>"
      from Some Inr Cons.prems(1) cur
      have w: "walk s pre (first_block ?e) ?r1 = Inr (r1, c)"
        by (simp add: read_cluster_in Let_def walk.simps)
      from Cons.IH [OF w Cons.prems(2)] Some Inr cur show ?thesis
        by (simp add: read_cluster_in Let_def walk.simps)
    qed
  qed
qed

lemma walk_miss:
  assumes "c < CLUSTER_COUNT" and "find_token_slot (disk s c) t 0 = Inr None"
  shows "walk s (t # post) c r = Inr (r\<lparr>name := strncpy 17 t @ [0], found := False\<rparr>, c)"
  using assms by (simp add: walk.simps read_cluster_in Let_def)

lemma find_a_b: "find_entry_by_path (bytes_of ''/a/b'') fs_with_dir_a = Inr result_a_b"
proof -
  have t: "strtok_all (take 511 (cstr (bytes_of ''/a/b''))) = [bytes_of ''a'', bytes_of ''b'']"
    by (simp add: eval_path)
  have p: "take 511 (cstr (bytes_of ''/a/b'')) \<noteq> [SLASH]"
    by (simp add: eval_path)
  show ?thesis
    unfolding find_entry_by_path_def Let_def t using p by (simp add: walk_a_b)
qed

lemma walk_a:
  "walk fs_with_dir_a [bytes_of ''a''] ROOT_DIR_CLUSTER
        (zero_result\<lparr>parent_cluster := ROOT_DIR_CLUSTER\<rparr>)
     = Inr (result_a_b\<lparr>name := strncpy 17 (bytes_of ''a'') @ [0], found := True\<rparr>, 10)"
  by (simp add: fs_with_dir_a_eq result_a_b_def eval_path eval_find eval_buf Let_def)

lemma miss_b: "find_token_slot (disk fs_with_dir_a 10) (bytes_of ''b'') 0 = Inr None"
  by (simp add: fs_with_dir_a_eq eval_path eval_find eval_buf)

text \<open>
  Claim C6, as the specification states it: on a failing resolution the result has
  found = false and its parent\_cluster is the directory cluster in which the failing
  component was searched. After \<open>mkdir /a\<close>, resolving \<open>/a/b\<close> searches \<open>b\<close> in
  cluster 10, the cluster of \<open>a\<close>, and fails there; the result has parent\_cluster 9,
  the root, which holds the entry of \<open>a\<close>.
\<close>

theorem find_entry_by_path_parent_counterexample:
  "walk fs_with_dir_a (strtok_all (take 511 (cstr (bytes_of ''/a/b'')))) ROOT_DIR_CLUSTER
        (zero_result\<lparr>parent_cluster := ROOT_DIR_CLUSTER\<rparr>) = Inr (result_a_b, 10) \<and>
   find_entry_by_path (bytes_of ''/a/b'') fs_with_dir_a = Inr result_a_b \<and>
   \<not> found result_a_b \<and> parent_cluster result_a_b = 9"
proof -
  have t: "strtok_all (take 511 (cstr (bytes_of ''/a/b''))) = [bytes_of ''a'', bytes_of ''b'']"
    by (simp add: eval_path)
  have p: "take 511 (cstr (bytes_of ''/a/b'')) \<noteq> [SLASH]"
    by (simp add: eval_path)
  have "find_entry_by_path (bytes_of ''/a/b'') fs_with_dir_a = Inr result_a_b"
    unfolding find_entry_by_path_def Let_def t using p by (simp add: walk_a_b)
  then show ?thesis by (simp add: t walk_a_b) (simp add: result_a_b_def)
qed

text \<open>
  Claim C6, amended: when the components before the failing one all match, so that the
  loop reaches a cluster \<open>c\<close>, and the failing component has no match in \<open>c\<close>,
  find\_entry\_by\_path returns found = false with the name of the failing component.
  Its parent\_cluster is the root, 9, when the first component fails; otherwise it is
  the cluster that holds the entry of the last matched component, the last cluster the
  loop searched with success, and \<open>c\<close>, where the failing component was searched, is
  the first block of that entry.
\<close>

theorem find_entry_by_path_failure:
  assumes "strtok_all (take 511 (cstr path)) = pre @ t # post"
    and "walk s pre ROOT_DIR_CLUSTER (zero_result\<lparr>parent_cluster := ROOT_DIR_CLUSTER\<rparr>) = Inr (r1, c)"
    and "found r1"
    and "c < CLUSTER_COUNT"
    and "find_token_slot (disk s c) t 0 = Inr None"
  shows "\<exists>r. find_entry_by_path path s = Inr r \<and> \<not> found r \<and> name r = strncpy 17 t @ [0] \<and>
           (pre = [] \<longrightarrow> c = ROOT_DIR_CLUSTER \<and> parent_cluster r = ROOT_DIR_CLUSTER) \<and>
           (pre \<noteq> [] \<longrightarrow>
              parent_cluster r = last (walk_clusters s pre ROOT_DIR_CLUSTER) \<and>
              parent_cluster r < CLUSTER_COUNT \<and>
              find_token_slot (disk s (parent_cluster r)) (last pre) 0 = Inr (Some (entry_index r)) \<and>
              entry r = dir_entry_at (disk s (parent_cluster r)) (entry_index r) \<and>
              c = first_block (entry r))"
proof -
  let ?init = "zero_result\<lparr>parent_cluster := ROOT_DIR_CLUSTER\<rparr>"
  let ?res = "r1\<lparr>name := strncpy 17 t @ [0], found := False\<rparr>"
  have ne: "take 511 (cstr path) \<noteq> [SLASH]"
    using assms(1) by (auto simp: strtok_all_slash)
  have "walk s (pre @ t # post) ROOT_DIR_CLUSTER ?init = walk s (t # post) c (r1\<lparr>found := found ?init\<rparr>)"
    by (rule walk_append [OF assms(2,3)])
  also have "\<dots> = Inr (?res, c)"
    by (simp add: walk_miss [OF assms(4,5)])
  finally have w: "walk s (pre @ t # post) ROOT_DIR_CLUSTER ?init = Inr (?res, c)" .
  have f: "find_entry_by_path path s = Inr ?res"
  proof (cases pre)
    case Nil
    with w ne assms(1) show ?thesis by (simp add: find_entry_by_path_def Let_def)
  next
    case (Cons p ps)
    with w ne assms(1) show ?thesis by (simp add: find_entry_by_path_def Let_def)
  qed
  have a: "pre = [] \<longrightarrow> c = ROOT_DIR_CLUSTER \<and> parent_cluster ?res = ROOT_DIR_CLUSTER"
    using assms(2) by (auto simp: walk.simps)
  have b: "pre \<noteq> [] \<longrightarrow>
              parent_cluster ?res = last (walk_clusters s pre ROOT_DIR_CLUSTER) \<and>
              parent_cluster ?res < CLUSTER_COUNT \<and>
              find_token_slot (disk s (parent_cluster ?res)) (last pre) 0 = Inr (Some (entry_index ?res)) \<and>
              entry ?res = dir_entry_at (disk s (parent_cluster ?res)) (entry_index ?res) \<and>
              c = first_block (entry ?res)"
  proof
    assume "pre \<noteq> []"
    from walk_found_last [OF assms(2,3) this] show "parent_cluster ?res = last (walk_clusters s pre ROOT_DIR_CLUSTER) \<and>
              parent_cluster ?res < CLUSTER_COUNT \<and>
              find_token_slot (disk s (parent_cluster ?res)) (last pre) 0 = Inr (Some (entry_index ?res)) \<and>
              entry ?res = dir_entry_at (disk s (parent_cluster ?res)) (entry_index ?res) \<and>
              c = first_block (entry ?res)"
      by simp
  qed
  from f a b show ?thesis by (intro exI [of _ ?res]) auto
qed


theorem find_entry_by_path_failure_witness:
  "strtok_all (take 511 (cstr (bytes_of ''/a/b''))) = [bytes_of ''a''] @ bytes_of ''b'' # [] \<and>
   find_token_slot (disk fs_with_dir_a 10) (bytes_of ''b'') 0 = Inr None \<and>
   find_entry_by_path (bytes_of ''/a/b'') fs_with_dir_a = Inr result_a_b \<and>
   \<not> found result_a_b \<and>
   parent_cluster result_a_b = last (walk_clusters fs_with_dir_a [bytes_of ''a''] ROOT_DIR_CLUSTER) \<and>
   parent_cluster result_a_b = 9 \<and>
   first_block (entry result_a_b) = 10"
proof -
  have t: "strtok_all (take 511 (cstr (bytes_of ''/a/b''))) = [bytes_of ''a''] @ bytes_of ''b'' # []"
    by (simp add: eval_path)
  have f: "found (result_a_b\<lparr>name := strncpy 17 (bytes_of ''a'') @ [0], found := True\<rparr>)" by simp
  have c: "(10 :: cluster_idx) < CLUSTER_COUNT" by simp
  from find_entry_by_path_failure [OF t walk_a f c miss_b] obtain r where
    r: "find_entry_by_path (bytes_of ''/a/b'') fs_with_dir_a = Inr r" "\<not> found r"
       "parent_cluster r = last (walk_clusters fs_with_dir_a [bytes_of ''a''] ROOT_DIR_CLUSTER)"
       "10 = first_block (entry r)"
    by auto
  from r(1) have e: "r = result_a_b" by (simp add: find_a_b)
  from r(2) e have n: "\<not> found result_a_b" by simp
  from r(3) e have l: "parent_cluster result_a_b
      = last (walk_clusters fs_with_dir_a [bytes_of ''a''] ROOT_DIR_CLUSTER)" by (simp only:)
  from r(4) e have b: "first_block (entry result_a_b) = 10" by simp
  have p: "parent_cluster result_a_b = 9" by (simp add: result_a_b_def)
  from t miss_b find_a_b n l p b show ?thesis by blast
qed

section \<open>Write and read\<close>

lemma chain_bytes_cong:
  "(\<And>c. c \<in> set cs \<Longrightarrow> disk s' c = disk s c) \<Longrightarrow> chain_bytes s' cs = chain_bytes s cs"
  by (induction cs) (simp_all add: chain_bytes_Cons)

lemma store_entry_and_fat_eq:
  "p < CLUSTER_COUNT \<Longrightarrow>
   store_entry_and_fat p upd s =
     (Inr (), s\<lparr>disk := with_fat_region (fat s) ((disk s)(p := upd (disk s p)))\<rparr>)"
  by (simp add: store_entry_and_fat_def read_cluster_in write_cluster_in persist_fat_eq)

lemma store_entry_and_fat_fail:
  "\<not> p < CLUSTER_COUNT \<Longrightarrow> store_entry_and_fat p upd s = (Inl IOError, s)"
  by (simp add: store_entry_and_fat_def read_cluster_out)

text \<open>What a found regular file says about the path and the loop.\<close>

lemma find_entry_by_path_file:
  assumes "find_entry_by_path path s = Inr r" and "found r" and "attributes (entry r) = ATTR_ARCHIVE"
  shows "take 511 (cstr path) \<noteq> [SLASH] \<and> strtok_all (take 511 (cstr path)) \<noteq> [] \<and>
         (\<exists>c. walk s (strtok_all (take 511 (cstr path))) ROOT_DIR_CLUSTER
                 (zero_result\<lparr>parent_cluster := ROOT_DIR_CLUSTER\<rparr>) = Inr (r, c))"
proof -
  have 1: "take 511 (cstr path) \<noteq> [SLASH]"
  proof
    assume "take 511 (cstr path) = [SLASH]"
    with assms(1) have "attributes (entry r) = ATTR_DIRECTORY"
      by (auto simp: find_entry_by_path_def Let_def)
    with assms(3) show False by simp
  qed
  have 2: "strtok_all (take 511 (cstr path)) \<noteq> []"
  proof
    assume "strtok_all (take 511 (cstr path)) = []"
    with assms(1) 1 have "r = zero_result\<lparr>parent_cluster := ROOT_DIR_CLUSTER\<rparr>"
      by (auto simp: find_entry_by_path_def Let_def)
    with assms(2) show False by (simp add: zero_result_def)
  qed
  from assms(1) 1 2 show ?thesis
    by (auto simp: find_entry_by_path_def Let_def split: list.splits sum.splits)
qed

lemma find_entry_by_path_walk:
  assumes "take 511 (cstr path) \<noteq> [SLASH]" and "strtok_all (take 511 (cstr path)) \<noteq> []"
    and "walk s (strtok_all (take 511 (cstr path))) ROOT_DIR_CLUSTER
                 (zero_result\<lparr>parent_cluster := ROOT_DIR_CLUSTER\<rparr>) = Inr (r, c)"
  shows "find_entry_by_path path s = Inr r"
  using assms by (auto simp: find_entry_by_path_def Let_def split: list.splits)


text \<open>The state that a successful fs\_write leaves, with the chain it has built.\<close>

lemma fs_write_ok:
  assumes w: "fs_write path content s = (Inr (), s')"
    and f: "find_entry_by_path path s = Inr r"
    and fr: "free_cluster_chain (fat s) (first_block (entry r)) = Inr t"
    and len: "length (cstr content) < 2 ^ 32"
  shows "found r \<and> attributes (entry r) = ATTR_ARCHIVE \<and> parent_cluster r < CLUSTER_COUNT \<and>
         (\<exists>first s2 new.
            s' = s2\<lparr>disk := with_fat_region (fat s2)
                     ((disk s2)(parent_cluster r :=
                        put_le32 (32 * entry_index r + 28) (of_nat (length (cstr content)))
                          (put_le16 (32 * entry_index r + 26) first (disk s2 (parent_cluster r)))))\<rparr> \<and>
            (\<forall>c \<in> set new. data_cluster c \<and> t c = 0) \<and>
            (\<forall>c. c \<notin> set new \<longrightarrow> disk s2 c = disk s c) \<and>
            (cstr content \<noteq> [] \<longrightarrow> is_chain (fat s2) new \<and> first = hd new \<and>
               take (length (cstr content)) (chain_bytes s2 new) = cstr content))"
proof -
  from w f have fa: "found r" "attributes (entry r) = ATTR_ARCHIVE"
    by (auto simp: fs_write_def split: if_splits)
  have l: "length (cstr content) mod 2 ^ 32 = length (cstr content)"
    "length (cstr content) mod 4294967296 = length (cstr content)" using len by simp_all
  let ?len = "length (cstr content)"
  let ?upd = "\<lambda>first buf. put_le32 (32 * entry_index r + 28) (of_nat (length (cstr content)))
                          (put_le16 (32 * entry_index r + 26) first buf)"
  obtain res s2 where rs: "(if cstr content \<noteq> [] then write_loop (cstr content) ?len 0 0 0 (s\<lparr>fat := t\<rparr>)
                       else (Inr (find_free_cluster t), s\<lparr>fat := t(find_free_cluster t := FAT_ENTRY_EOF)\<rparr>))
                     = (res, s2)"
    by (cases "if cstr content \<noteq> [] then write_loop (cstr content) ?len 0 0 0 (s\<lparr>fat := t\<rparr>)
                       else (Inr (find_free_cluster t), s\<lparr>fat := t(find_free_cluster t := FAT_ENTRY_EOF)\<rparr>)")
  have st: "(case res of Inl e \<Rightarrow> (Inl e, s2)
                   | Inr first \<Rightarrow> store_entry_and_fat (parent_cluster r) (?upd first) s2) = (Inr (), s')"
  proof (cases "cstr content = []")
    case True
    with w f fa fr rs show ?thesis by (auto simp: fs_write_def Let_def)
  next
    case False
    with w f fa fr rs l show ?thesis by (auto simp: fs_write_def Let_def)
  qed
  then obtain first where res: "res = Inr first" by (cases res) auto
  with st have so: "store_entry_and_fat (parent_cluster r) (?upd first) s2 = (Inr (), s')" by simp
  have p: "parent_cluster r < CLUSTER_COUNT"
  proof (rule ccontr)
    assume "\<not> parent_cluster r < CLUSTER_COUNT"
    from store_entry_and_fat_fail [OF this] so show False by simp
  qed
  from so store_entry_and_fat_eq [OF p, of "?upd first" s2]
  have s': "s' = s2\<lparr>disk := with_fat_region (fat s2)
                     ((disk s2)(parent_cluster r := ?upd first (disk s2 (parent_cluster r))))\<rparr>"
    by simp
  show ?thesis
  proof (cases "cstr content = []")
    case True
    with rs res have "s2 = s\<lparr>fat := t(find_free_cluster t := FAT_ENTRY_EOF)\<rparr>" by auto
    then have "\<forall>c. c \<notin> set [] \<longrightarrow> disk s2 c = disk s c" by simp
    with fa p s' True show ?thesis by (intro conjI exI [of _ first] exI [of _ s2] exI [of _ "[]"]) auto
  next
    case False
    then have "0 < ?len" by simp
    with rs res have wl: "write_loop (cstr content) ?len 0 0 0 (s\<lparr>fat := t\<rparr>) = (Inr first, s2)" by simp
    from write_loop_ok [OF wl, of "[]"] \<open>0 < ?len\<close>
    obtain new where new: "\<forall>c\<in>set new. data_cluster c \<and> t c = 0" "new \<noteq> []"
      "is_chain (fat s2) new" "first = hd new" "\<forall>c. c \<notin> set new \<longrightarrow> disk s2 c = disk s c"
      "take (length (cstr content)) (chain_bytes s2 new) = cstr content"
      by auto
    with fa p s' show ?thesis by (intro conjI exI [of _ first] exI [of _ s2] exI [of _ new]) auto
  qed
qed


lemma length_c27: "length c27 = 27" "cstr c27 = c27"
  by (simp_all add: c27_def cstr_def)

lemma fs_write_f_c27:
  "fs_write (bytes_of ''/f'') c27 (snd (fs_create (bytes_of ''/f'') formatted_fs)) = (Inr (), fs_forged)"
  unfolding fs_create_f
  apply (simp add: fs_write_def find_f_created entry_f_created free_chain_10 Let_def length_c27)
  apply (simp add: write_loop.simps find_free_cluster_10 Let_def write_cluster_def length_c27)
  apply (simp add: store_entry_and_fat_def read_cluster_def write_cluster_def persist_fat_eq
           data_c27_def root_f27_def fs_forged_def length_c27)
  done


lemma disk_fs_forged:
  "disk fs_forged 9 = root_f27" "disk fs_forged 10 = data_c27" "disk fs_forged 11 = zero_cluster"
  "fat fs_forged = format_fat(10 := FAT_ENTRY_EOF)"
  by (simp_all add: fs_forged_def formatted_disk_def)

lemma root_f27_slot:
  "find_token_slot root_f27 (bytes_of ''f'') 0 = Inr (Some 0)"
  "attributes (dir_entry_at root_f27 0) = ATTR_ARCHIVE"
  "first_block (dir_entry_at root_f27 0) = 10"
  by (simp_all add: root_f27_def eval_path eval_find eval_buf)

lemma data_c27_slot:
  "find_token_slot data_c27 c27 0 = Inr (Some 0)"
  "attributes (dir_entry_at data_c27 0) = ATTR_DIRECTORY"
  "first_block (dir_entry_at data_c27 0) = 11"
  by (simp_all add: data_c27_def c27_def eval_path eval_find eval_buf)

lemma tokens_forged:
  "strtok_all (take 511 (cstr path_forged)) = [bytes_of ''f'', c27]"
  "take 511 (cstr path_forged) \<noteq> [SLASH]"
  "strtok_all (take 511 (cstr path_forged_g)) = [bytes_of ''f'', c27, bytes_of ''g'']"
  "take 511 (cstr path_forged_g) \<noteq> [SLASH]"
  "split_parent path_forged_g = Inr (path_forged, bytes_of ''g'')"
  by (simp_all add: path_forged_g_def path_forged_def c27_def eval_path)


lemma find_forged:
  "find_entry_by_path path_forged fs_forged =
     Inr (zero_result\<lparr>name := strncpy 17 c27 @ [0], found := True,
                       parent_cluster := 10, entry_cluster := 11, entry_index := 0,
                       entry := dir_entry_at data_c27 0\<rparr>)"
  unfolding find_entry_by_path_def Let_def tokens_forged using tokens_forged(2)
  by (simp add: walk.simps read_cluster_in disk_fs_forged root_f27_slot data_c27_slot Let_def)

lemma fs_create_forged_g:
  "fs_create path_forged_g fs_forged = (Inr (), fs_forged_g)"
  apply (simp add: fs_create_def tokens_forged find_forged data_c27_slot)
  apply (simp add: find_free_dir_entry_def read_cluster_in disk_fs_forged find_free_slot_zero ffc11 Let_def)
  apply (simp add: write_cluster_in persist_fat_eq fs_forged_g_def dir_forged_def)
  apply (simp add: fs_forged_def)
  done

lemma disk_fs_forged_g:
  "disk fs_forged_g 9 = root_f27" "disk fs_forged_g 10 = data_c27" "disk fs_forged_g 11 = dir_forged"
  "fat fs_forged_g = format_fat(10 := FAT_ENTRY_EOF, 11 := FAT_ENTRY_EOF)"
  by (simp_all add: fs_forged_g_def formatted_disk_def)

lemma dir_forged_slot:
  "find_token_slot dir_forged (bytes_of ''g'') 0 = Inr (Some 0)"
  "attributes (dir_entry_at dir_forged 0) = ATTR_ARCHIVE"
  "first_block (dir_entry_at dir_forged 0) = 11"
  "esize (dir_entry_at dir_forged 0) = 0"
  by (simp_all add: dir_forged_def eval_path eval_find eval_buf)

lemma find_forged_g:
  "find_entry_by_path path_forged_g fs_forged_g =
     Inr (zero_result\<lparr>name := strncpy 17 (bytes_of ''g'') @ [0], found := True,
                       parent_cluster := 11, entry_cluster := 11, entry_index := 0,
                       entry := dir_entry_at dir_forged 0\<rparr>)"
  unfolding find_entry_by_path_def Let_def tokens_forged using tokens_forged(4)
  by (simp add: walk.simps read_cluster_in disk_fs_forged_g root_f27_slot data_c27_slot
        dir_forged_slot Let_def)


lemma free_chain_11:
  "free_cluster_chain (format_fat(10 := FAT_ENTRY_EOF, 11 := FAT_ENTRY_EOF)) 11
     = Inr (format_fat(10 := FAT_ENTRY_EOF, 11 := 0))"
  by (simp add: free_cluster_chain.simps format_fat_def)

lemma ffc11_freed: "find_free_cluster (format_fat(10 := FAT_ENTRY_EOF, 11 := 0)) = 11"
  by (simp add: find_free_cluster_def find_free_cluster_from.simps format_fat_def)

lemma fs_write_forged_g:
  "fs_write path_forged_g (bytes_of ''x'') fs_forged_g = (Inr (), fs_forged_written)"
  apply (simp add: fs_write_def find_forged_g dir_forged_slot disk_fs_forged_g free_chain_11 Let_def)
  apply (simp add: cstr_def bytes_of_def)
  apply (simp add: write_loop.simps ffc11_freed Let_def write_cluster_def)
  apply (simp add: store_entry_and_fat_def read_cluster_def write_cluster_def persist_fat_eq
           data_x_def fs_forged_written_def fs_forged_g_def)
  apply (simp add: cstr_def bytes_of_def cong: if_cong)
  done

lemma disk_fs_forged_written:
  "disk fs_forged_written 9 = root_f27" "disk fs_forged_written 10 = data_c27"
  "disk fs_forged_written 11 = put_le32 28 1 (put_le16 26 11 data_x)"
  by (simp_all add: fs_forged_written_def formatted_disk_def)

lemma overwritten_slot:
  "find_token_slot (put_le32 28 1 (put_le16 26 11 data_x)) (bytes_of ''g'') 0 = Inr None"
  by (simp add: data_x_def eval_path eval_find eval_buf)

lemma fs_read_forged_written:
  "fs_read path_forged_g fs_forged_written = (Inl NotFound, [])"
  unfolding fs_read_def find_entry_by_path_def Let_def tokens_forged using tokens_forged(4)
  by (simp add: walk.simps read_cluster_in disk_fs_forged_written root_f27_slot data_c27_slot
        overwritten_slot Let_def)


lemma fs_write_f_x:
  "fs_write (bytes_of ''/f'') (bytes_of ''x'') (snd (fs_create (bytes_of ''/f'') formatted_fs))
     = (Inr (), fs_with_file_x)"
  unfolding fs_with_file_x_eq unfolding fs_create_f
  apply (simp add: fs_write_def find_f_created entry_f_created free_chain_10 Let_def)
  apply (simp add: cstr_def bytes_of_def)
  apply (simp add: write_loop.simps find_free_cluster_10 Let_def write_cluster_def)
  apply (simp add: store_entry_and_fat_def read_cluster_def write_cluster_def persist_fat_eq
           data_x_def root_with_f_def)
  apply (simp add: cstr_def bytes_of_def cong: if_cong)
  done

lemma walk_clusters_f:
  "walk_clusters (snd (fs_create (bytes_of ''/f'') formatted_fs))
     (strtok_all (take 511 (cstr (bytes_of ''/f'')))) ROOT_DIR_CLUSTER = [9]"
proof -
  have tk: "strtok_all (take 511 (cstr (bytes_of ''/f''))) = [bytes_of ''f'']"
    by (simp add: eval_path)
  have sl: "find_token_slot (set_new_entry 0 (bytes_of ''f'') ATTR_ARCHIVE 10 zero_cluster)
              (bytes_of ''f'') 0 = Inr (Some 0)"
    by (simp add: eval_path eval_find eval_buf)
  show ?thesis
    unfolding fs_create_f snd_conv tk by (simp add: sl)
qed

text \<open>
  Claim C1, as the specification states it: when a write to a path that resolves to a
  regular file succeeds, the read that follows emits the bytes written and the newline.
  After \<open>init\<close>, \<open>load\<close>, \<open>create /f\<close>, \<open>write c27 /f\<close> and \<open>create /f/c27/g\<close> the path
  \<open>/f/c27/g\<close> resolves to a regular file whose entry lies in cluster 11, which is also
  its first block. The write of \<open>x\<close> releases cluster 11, allocates it again and stores
  the data there, over the entry; it succeeds, and the read that follows fails with
  not found.
\<close>

theorem fs_write_then_read_counterexample:
  "init_and_load = Some formatted_fs \<and>
   run_commands [Create (bytes_of ''/f''), Write (bytes_of ''/f'') c27, Create path_forged_g]
      formatted_fs = Some fs_forged_g \<and>
   find_entry_by_path path_forged_g fs_forged_g =
     Inr (zero_result\<lparr>name := strncpy 17 (bytes_of ''g'') @ [0], found := True,
                       parent_cluster := 11, entry_cluster := 11, entry_index := 0,
                       entry := dir_entry_at dir_forged 0\<rparr>) \<and>
   attributes (dir_entry_at dir_forged 0) = ATTR_ARCHIVE \<and>
   fs_write path_forged_g (bytes_of ''x'') fs_forged_g = (Inr (), fs_forged_written) \<and>
   fs_read path_forged_g fs_forged_written = (Inl NotFound, [])"
  by (simp add: init_and_load_eq fs_create_f fs_write_f_c27 [unfolded fs_create_f snd_conv]
        fs_create_forged_g find_forged_g dir_forged_slot fs_write_forged_g fs_read_forged_written)

text \<open>
  Claim C1, amended: when a write of at most 4086 * 1024 bytes to a path that resolves
  to a regular file succeeds, the read that follows emits exactly the bytes written and
  then the newline, provided that the clusters the resolution of the path searches are
  pairwise distinct and each of them is the root or a cluster of the data area that is
  in use in the FAT once the old chain of the file is released.
\<close>

theorem fs_write_then_read:
  assumes w: "fs_write path content s = (Inr (), s')"
    and f: "find_entry_by_path path s = Inr r"
    and fr: "free_cluster_chain (fat s) (first_block (entry r)) = Inr t"
    and len0: "length (cstr content) \<le> 4086 * 1024"
    and dist: "distinct (walk_clusters s (strtok_all (take 511 (cstr path))) ROOT_DIR_CLUSTER)"
    and alloc: "\<forall>d \<in> set (walk_clusters s (strtok_all (take 511 (cstr path))) ROOT_DIR_CLUSTER).
                  d = ROOT_DIR_CLUSTER \<or> (data_cluster d \<and> t d \<noteq> 0)"
  shows "fs_read path s' = (Inr (), cstr content @ [0x0A])"
proof -
  from len0 have len: "length (cstr content) < 2 ^ 32" by simp
  let ?toks = "strtok_all (take 511 (cstr path))"
  let ?r0 = "zero_result\<lparr>parent_cluster := ROOT_DIR_CLUSTER\<rparr>"
  let ?P = "parent_cluster r"
  let ?i = "entry_index r"
  let ?len = "length (cstr content)"
  from fs_write_ok [OF w f fr len] obtain first s2 new where
    fa: "found r" "attributes (entry r) = ATTR_ARCHIVE" and p: "?P < CLUSTER_COUNT"
    and s': "s' = s2\<lparr>disk := with_fat_region (fat s2)
                     ((disk s2)(?P := put_le32 (32 * ?i + 28) (of_nat ?len)
                          (put_le16 (32 * ?i + 26) first (disk s2 ?P))))\<rparr>"
    and new: "\<forall>c \<in> set new. data_cluster c \<and> t c = 0"
    and frame: "\<forall>c. c \<notin> set new \<longrightarrow> disk s2 c = disk s c"
    and chain: "cstr content \<noteq> [] \<longrightarrow> is_chain (fat s2) new \<and> first = hd new \<and>
               take ?len (chain_bytes s2 new) = cstr content"
    by blast
  from find_entry_by_path_file [OF f fa] obtain c where
    ne: "take 511 (cstr path) \<noteq> [SLASH]" "?toks \<noteq> []"
    and wk: "walk s ?toks ROOT_DIR_CLUSTER ?r0 = Inr (r, c)"
    by blast
  from walk_found_last [OF wk fa(1) ne(2)]
  have lastP: "walk_clusters s ?toks ROOT_DIR_CLUSTER \<noteq> []"
    "last (walk_clusters s ?toks ROOT_DIR_CLUSTER) = ?P" by simp_all
  then have Pin: "?P \<in> set (walk_clusters s ?toks ROOT_DIR_CLUSTER)"
    using last_in_set by metis
  have outside: "\<not> (1 \<le> d \<and> d \<le> 8) \<and> d \<notin> set new"
    if "d \<in> set (walk_clusters s ?toks ROOT_DIR_CLUSTER)" for d
  proof -
    from alloc that have d: "d = ROOT_DIR_CLUSTER \<or> (data_cluster d \<and> t d \<noteq> 0)" by blast
    then have "\<not> (1 \<le> d \<and> d \<le> 8)"
      by (auto simp: data_cluster_def word_le_nat_alt word_less_nat_alt)
    moreover from d new have "d \<notin> set new" by (auto simp: data_cluster_def)
    ultimately show ?thesis by simp
  qed
  have dP: "disk s' ?P = put_le32 (32 * ?i + 28) (of_nat ?len)
                          (put_le16 (32 * ?i + 26) first (disk s ?P))"
    using outside [OF Pin] frame by (auto simp: s' with_fat_region_def)
  have dother: "disk s' d = disk s d"
    if "d \<in> set (walk_clusters s ?toks ROOT_DIR_CLUSTER)" "d \<noteq> ?P" for d
    using outside [OF that(1)] that(2) frame by (auto simp: s' with_fat_region_def)
  have inP: "disk s' ?P q = disk s ?P q" if "\<not> (32 * ?i + 26 \<le> q \<and> q < 32 * ?i + 32)" for q
    unfolding dP by (rule entry_update_frame [OF that])
  from walk_parent_updated [OF wk fa(1) ne(2) dist dother inP fa(2)]
  have wk': "walk s' ?toks ROOT_DIR_CLUSTER ?r0 =
           Inr (r\<lparr>entry := dir_entry_at (disk s' ?P) ?i,
                  entry_cluster := first_block (dir_entry_at (disk s' ?P) ?i)\<rparr>,
                first_block (dir_entry_at (disk s' ?P) ?i))"
    by blast
  from walk_found_last [OF wk fa(1) ne(2)]
  have er: "entry r = dir_entry_at (disk s ?P) ?i" by simp
  have fields: "first_block (dir_entry_at (disk s' ?P) ?i) = first"
    "esize (dir_entry_at (disk s' ?P) ?i) = of_nat ?len"
    "attributes (dir_entry_at (disk s' ?P) ?i) = ATTR_ARCHIVE"
    using fa(2) er by (simp_all only: dP entry_update_fields)
  from find_entry_by_path_walk [OF ne wk']
  have f': "find_entry_by_path path s' =
              Inr (r\<lparr>entry := dir_entry_at (disk s' ?P) ?i,
                     entry_cluster := first_block (dir_entry_at (disk s' ?P) ?i)\<rparr>)" .
  have un: "unat (of_nat ?len :: 32 word) = ?len"
    using len by (simp add: unat_of_nat take_bit_nat_eq_self)
  have rd: "fs_read path s' = read_loop s' ?len first []"
    using fa(1) by (simp add: fs_read_def f' fields un)
  show ?thesis
  proof (cases "cstr content = []")
    case True
    then show ?thesis by (simp add: rd read_loop_done)
  next
    case False
    with chain have ch: "is_chain (fat s2) new" "first = hd new"
      "take ?len (chain_bytes s2 new) = cstr content" by simp_all
    have fat': "fat s' = fat s2" by (simp add: s')
    have "disk s' c = disk s2 c" if "c \<in> set new" for c
    proof -
      from that new have c: "data_cluster c" "t c = 0" by auto
      then have 1: "\<not> (1 \<le> c \<and> c \<le> 8)"
        by (auto simp: data_cluster_def word_le_nat_alt word_less_nat_alt)
      from outside [OF Pin] that have 2: "c \<noteq> ?P" by auto
      from 1 2 show ?thesis by (auto simp: s' with_fat_region_def)
    qed
    then have cb: "chain_bytes s' new = chain_bytes s2 new" by (rule chain_bytes_cong)
    from ch(1) have "is_chain (fat s') new" by (simp only: fat')
    from read_chain [OF this, of ?len "[]"] show ?thesis
      by (simp add: rd ch(2) cb ch(3))
  qed
qed

theorem fs_write_then_read_witness:
  "fs_write (bytes_of ''/f'') (bytes_of ''x'') (snd (fs_create (bytes_of ''/f'') formatted_fs))
     = (Inr (), fs_with_file_x) \<and>
   fs_read (bytes_of ''/f'') fs_with_file_x = (Inr (), bytes_of ''x'' @ [0x0A])"
proof -
  have f: "find_entry_by_path (bytes_of ''/f'') (snd (fs_create (bytes_of ''/f'') formatted_fs)) =
             Inr \<lparr>name = strncpy 17 (bytes_of ''f'') @ [0], found = True, parent_cluster = 9,
                  entry_cluster = 10, entry_index = 0,
                  entry = dir_entry_at (set_new_entry 0 (bytes_of ''f'') ATTR_ARCHIVE 10 zero_cluster) 0\<rparr>"
    unfolding fs_create_f snd_conv by (rule find_f_created)
  have t: "free_cluster_chain (fat (snd (fs_create (bytes_of ''/f'') formatted_fs)))
             (first_block (entry \<lparr>name = strncpy 17 (bytes_of ''f'') @ [0], found = True, parent_cluster = 9,
                  entry_cluster = 10, entry_index = 0,
                  entry = dir_entry_at (set_new_entry 0 (bytes_of ''f'') ATTR_ARCHIVE 10 zero_cluster) 0\<rparr>))
           = Inr (format_fat(10 := 0))"
    unfolding fs_create_f snd_conv by (simp add: entry_f_created free_chain_10)
  have l: "length (cstr (bytes_of ''x'')) \<le> 4086 * 1024" by (simp add: eval_path)
  have d: "distinct (walk_clusters (snd (fs_create (bytes_of ''/f'') formatted_fs))
             (strtok_all (take 511 (cstr (bytes_of ''/f'')))) ROOT_DIR_CLUSTER)"
    by (simp add: walk_clusters_f)
  have a: "\<forall>d \<in> set (walk_clusters (snd (fs_create (bytes_of ''/f'') formatted_fs))
             (strtok_all (take 511 (cstr (bytes_of ''/f'')))) ROOT_DIR_CLUSTER).
             d = ROOT_DIR_CLUSTER \<or> (data_cluster d \<and> (format_fat(10 := 0)) d \<noteq> 0)"
    by (simp add: walk_clusters_f)
  have c: "cstr (bytes_of ''x'') = bytes_of ''x''" by (simp add: cstr_def bytes_of_def)
  from fs_write_then_read [OF fs_write_f_x f t l d a]
  have "fs_read (bytes_of ''/f'') fs_with_file_x = (Inr (), bytes_of ''x'' @ [0x0A])"
    by (simp only: c)
  with fs_write_f_x show ?thesis by (rule conjI)
qed


end
